theory Spec2Isabelle
  imports Main "HOL-Library.Word" "HOL-Library.Char_ord" "HOL-Library.List_Lexorder"
begin

section \<open>Return codes, timestamps and update kinds\<close>

text \<open>
  The numeric constants below are declared in the engine's public and internal headers,
  which are not part of \<^verbatim>\<open>hs_cursor.c\<close>. Only their being pairwise distinct
  (and \<open>0\<close> meaning success) matters for what follows.
\<close>

definition WT_NOTFOUND :: int where "WT_NOTFOUND = - 31803"
definition WT_DUPLICATE_KEY :: int where "WT_DUPLICATE_KEY = - 31801"
definition WT_PANIC :: int where "WT_PANIC = - 31804"
definition WT_RESTART :: int where "WT_RESTART = - 31805"
definition EINVAL :: int where "EINVAL = 22"

definition UINT64_MAX :: "64 word" where "UINT64_MAX = - 1"
definition WT_TS_NONE :: "64 word" where "WT_TS_NONE = 0"
definition WT_TS_MAX :: "64 word" where "WT_TS_MAX = UINT64_MAX"
definition WT_TXN_NONE :: "64 word" where "WT_TXN_NONE = 0"

definition WT_UPDATE_INVALID :: "8 word" where "WT_UPDATE_INVALID = 0"
definition WT_UPDATE_MODIFY :: "8 word" where "WT_UPDATE_MODIFY = 1"
definition WT_UPDATE_RESERVE :: "8 word" where "WT_UPDATE_RESERVE = 2"
definition WT_UPDATE_STANDARD :: "8 word" where "WT_UPDATE_STANDARD = 3"
definition WT_UPDATE_TOMBSTONE :: "8 word" where "WT_UPDATE_TOMBSTONE = 4"

text \<open>
  \<^verbatim>\<open>WT_TRET(a)\<close>: keep the first error, except that a panic always wins and that
  a few benign earlier codes are overwritten by a later failure.
\<close>

definition WT_TRET :: "int \<Rightarrow> int \<Rightarrow> int" where
  "WT_TRET ret r =
     (if r \<noteq> 0 \<and> (r = WT_PANIC \<or> ret = 0 \<or> ret = WT_DUPLICATE_KEY \<or>
                   ret = WT_NOTFOUND \<or> ret = WT_RESTART)
      then r else ret)"

section \<open>The history store, the session and the cursor\<close>

text \<open>
  A history-store value is the 4-field tuple read by \<^verbatim>\<open>get_value\<close>: stop durable
  timestamp, durable timestamp, update type (a 64-bit integer on disk) and payload.
\<close>

record hs_rec =
  rec_stop_durable_ts :: "64 word"
  rec_durable_ts :: "64 word"
  rec_upd_type_full :: "64 word"
  rec_value :: string

datatype isolation = WT_ISO_READ_COMMITTED | WT_ISO_READ_UNCOMMITTED | WT_ISO_SNAPSHOT

datatype cursor_op = OpSearchNear | OpPrev | OpNext | OpGetValue

text \<open>
  Where an inexact near-search may land: on the greatest smaller key, or on a larger key,
  possibly several records past the smallest larger one (the insert race the source
  comments describe).
\<close>

datatype landing = LandBefore | LandAfter nat

text \<open>
  The state the functions of \<^verbatim>\<open>hs_cursor.c\<close> run against.
  \<^item> \<open>hs\<close>: the history store, raw encoded key to value, in ascending raw-key order.
    Raw keys are byte strings compared lexicographically, as \<^verbatim>\<open>__wt_compare\<close> with
    no collator does.
  \<^item> \<open>faults\<close>: the return codes the fallible collaborators will report, one per call in
    call order; \<open>0\<close> (or an exhausted list) is success.
  \<^item> \<open>near_landing\<close>: the choice the near-search makes when there is no exact match.
  \<^item> \<open>isolation\<close>: the session's transaction isolation level.
  \<^item> \<open>bufs\<close>, \<open>next_addr\<close>: the \<^verbatim>\<open>WT_ITEM\<close> buffers by address (scratch buffers and
    the caller's), and the address the next scratch allocation returns.
  \<^item> \<open>upd_live\<close>: the number of allocated \<^verbatim>\<open>WT_UPDATE\<close> structures.
  \<^item> \<open>cursors_open\<close>: the number of open history-store cursors.
  \<^item> \<open>cur_pos\<close>, \<open>cur_key\<close>, \<open>cur_read_committed\<close>: the cursor: the index of the record
    it is positioned on, its raw key buffer, and its
    \<^verbatim>\<open>WT_CURSTD_HS_READ_COMMITTED\<close> flag.
  \<^item> \<open>calls\<close>: every cursor operation performed so far, with the isolation level and the
    cursor flag it ran under.
\<close>

record env =
  hs :: "(string \<times> hs_rec) list"
  faults :: "int list"
  near_landing :: landing
  isolation :: isolation
  bufs :: "nat \<Rightarrow> string option"
  next_addr :: nat
  upd_live :: int
  cursors_open :: int
  cur_pos :: "nat option"
  cur_key :: string
  cur_read_committed :: bool
  calls :: "(cursor_op \<times> isolation \<times> bool) list"

text \<open>The next scheduled return code of a fallible collaborator.\<close>

definition fault :: "'a env_scheme \<Rightarrow> int \<times> 'a env_scheme" where
  "fault s = (case faults s of [] \<Rightarrow> (0, s) | r # rs \<Rightarrow> (r, s\<lparr>faults := rs\<rparr>))"

definition logged :: "cursor_op \<Rightarrow> 'a env_scheme \<Rightarrow> 'a env_scheme" where
  "logged op s = s\<lparr>calls := calls s @ [(op, isolation s, cur_read_committed s)]\<rparr>"

subsection \<open>Buffers\<close>

definition item_data :: "'a env_scheme \<Rightarrow> nat \<Rightarrow> string" where
  "item_data s a = (case bufs s a of None \<Rightarrow> [] | Some d \<Rightarrow> d)"

text \<open>\<^verbatim>\<open>__wt_scr_alloc\<close>: a fresh, empty scratch buffer.\<close>

definition wt_scr_alloc :: "'a env_scheme \<Rightarrow> int \<times> nat \<times> 'a env_scheme" where
  "wt_scr_alloc s =
     (case fault s of (r, s1) \<Rightarrow>
        if r \<noteq> 0 then (r, 0, s1)
        else (0, next_addr s1,
              s1\<lparr>bufs := (bufs s1)(next_addr s1 \<mapsto> []), next_addr := Suc (next_addr s1)\<rparr>))"

text \<open>\<^verbatim>\<open>__wt_scr_free(session, &buf)\<close>: releases the buffer; a null pointer is left alone.\<close>

definition wt_scr_free :: "'a env_scheme \<Rightarrow> nat option \<Rightarrow> 'a env_scheme" where
  "wt_scr_free s p = (case p of None \<Rightarrow> s | Some a \<Rightarrow> s\<lparr>bufs := (bufs s)(a := None)\<rparr>)"

text \<open>\<^verbatim>\<open>__wt_buf_set(session, buf, data, size)\<close>: copies the bytes into the buffer.\<close>

definition wt_buf_set :: "'a env_scheme \<Rightarrow> nat \<Rightarrow> string \<Rightarrow> int \<times> 'a env_scheme" where
  "wt_buf_set s a d =
     (case fault s of (r, s1) \<Rightarrow>
        if r \<noteq> 0 then (r, s1) else (0, s1\<lparr>bufs := (bufs s1)(a \<mapsto> d)\<rparr>))"

text \<open>
  \<^verbatim>\<open>__wt_compare(session, NULL, a, b, &cmp)\<close>: the raw byte comparison, the order of
  the store itself.
\<close>

definition wt_compare :: "'a env_scheme \<Rightarrow> string \<Rightarrow> string \<Rightarrow> int \<times> int \<times> 'a env_scheme" where
  "wt_compare s a b =
     (case fault s of (r, s1) \<Rightarrow>
        if r \<noteq> 0 then (r, 0, s1)
        else (0, (if a < b then - 1 else if a = b then 0 else 1), s1))"

subsection \<open>Cursor operations\<close>

text \<open>
  The cursor methods (\<^verbatim>\<open>set_key\<close>, \<^verbatim>\<open>search_near\<close>, \<^verbatim>\<open>prev\<close>, \<^verbatim>\<open>next\<close>,
  \<^verbatim>\<open>get_value\<close>, \<^verbatim>\<open>close\<close>) belong to the cursor adapter and the ordered
  structure, which are not in \<^verbatim>\<open>hs_cursor.c\<close>. The spec describes the adapter as thin:
  the methods move over the ordered store by raw key and report not-found when they run
  off either end. Each method logs itself in \<open>calls\<close> and may fail with the next
  scheduled code.
\<close>

text \<open>Modelled from the spec: the cursor is put on record \<open>i\<close> and carries its raw key.\<close>

definition cursor_place :: "nat \<Rightarrow> 'a env_scheme \<Rightarrow> 'a env_scheme" where
  "cursor_place i s = s\<lparr>cur_pos := Some i, cur_key := fst (hs s ! i)\<rparr>"

text \<open>Modelled from the spec: \<^verbatim>\<open>set_key\<close> loads the packed search key on the cursor.\<close>

definition cursor_set_key :: "'a env_scheme \<Rightarrow> string \<Rightarrow> 'a env_scheme" where
  "cursor_set_key s k = s\<lparr>cur_key := k\<rparr>"

text \<open>
  Modelled from the spec: \<^verbatim>\<open>next\<close> moves to the record with the next larger raw key
  (the first record from an unpositioned cursor), not-found past the last one.
\<close>

definition cursor_next :: "'a env_scheme \<Rightarrow> int \<times> 'a env_scheme" where
  "cursor_next s =
     (case fault (logged OpNext s) of (r, s1) \<Rightarrow>
        if r \<noteq> 0 then (r, s1)
        else let i = (case cur_pos s1 of None \<Rightarrow> 0 | Some p \<Rightarrow> Suc p) in
          if i < length (hs s1) then (0, cursor_place i s1)
          else (WT_NOTFOUND, s1\<lparr>cur_pos := None\<rparr>))"

text \<open>
  Modelled from the spec: \<^verbatim>\<open>prev\<close> moves to the record with the next smaller raw key
  (the last record from an unpositioned cursor), not-found before the first one.
\<close>

definition cursor_prev :: "'a env_scheme \<Rightarrow> int \<times> 'a env_scheme" where
  "cursor_prev s =
     (case fault (logged OpPrev s) of (r, s1) \<Rightarrow>
        if r \<noteq> 0 then (r, s1)
        else (case cur_pos s1 of
                None \<Rightarrow>
                  if hs s1 = [] then (WT_NOTFOUND, s1)
                  else (0, cursor_place (length (hs s1) - 1) s1)
              | Some 0 \<Rightarrow> (WT_NOTFOUND, s1\<lparr>cur_pos := None\<rparr>)
              | Some (Suc p) \<Rightarrow> (0, cursor_place p s1)))"

text \<open>The number of leading records whose key is below \<open>k\<close>: the insertion point of \<open>k\<close>.\<close>

definition lower_bound :: "string \<Rightarrow> (string \<times> hs_rec) list \<Rightarrow> nat" where
  "lower_bound k st = length (takeWhile (\<lambda>e. fst e < k) st)"

text \<open>
  Modelled from the spec: \<^verbatim>\<open>search_near\<close> reports not-found on an empty store; the record itself with \<open>exact = 0\<close>
  when the key is present; otherwise a neighbour, with \<open>exact\<close> the sign of the landing
  key against the search key.
\<close>

definition cursor_search_near :: "'a env_scheme \<Rightarrow> int \<times> int \<times> 'a env_scheme" where
  "cursor_search_near s =
     (case fault (logged OpSearchNear s) of (r, s1) \<Rightarrow>
        if r \<noteq> 0 then (r, 0, s1)
        else let k = cur_key s1; n = length (hs s1); i = lower_bound k (hs s1) in
          if n = 0 then (WT_NOTFOUND, 0, s1\<lparr>cur_pos := None\<rparr>)
          else if i < n \<and> fst (hs s1 ! i) = k then (0, 0, cursor_place i s1)
          else (case near_landing s1 of
                  LandBefore \<Rightarrow>
                    if 0 < i then (0, - 1, cursor_place (i - 1) s1)
                    else (0, 1, cursor_place 0 s1)
                | LandAfter d \<Rightarrow>
                    if i < n then (0, 1, cursor_place (min (i + d) (n - 1)) s1)
                    else (0, - 1, cursor_place (n - 1) s1)))"

definition empty_rec :: hs_rec where
  "empty_rec = \<lparr>rec_stop_durable_ts = 0, rec_durable_ts = 0, rec_upd_type_full = 0, rec_value = []\<rparr>"

text \<open>
  Modelled from the spec: \<^verbatim>\<open>get_value\<close> reads the value tuple of the record the cursor is on. On failure the
  caller's variables are not written; the tuple returned with a non-zero code is never read.
\<close>

definition cursor_get_value :: "'a env_scheme \<Rightarrow> int \<times> hs_rec \<times> 'a env_scheme" where
  "cursor_get_value s =
     (case fault (logged OpGetValue s) of (r, s1) \<Rightarrow>
        if r \<noteq> 0 then (r, empty_rec, s1)
        else (case cur_pos s1 of
                None \<Rightarrow> (EINVAL, empty_rec, s1)
              | Some i \<Rightarrow>
                  if i < length (hs s1) then (0, snd (hs s1 ! i), s1)
                  else (EINVAL, empty_rec, s1)))"

subsection \<open>Collaborators taken as parameters\<close>

text \<open>
  The packing of the four key fields into a raw key, the packing of a record number and the
  application of one modify payload to a value are defined elsewhere in the engine; the
  functions below take them as parameters.
\<close>

record collab =
  hs_pack_key :: "32 word \<Rightarrow> string \<Rightarrow> 64 word \<Rightarrow> 64 word \<Rightarrow> string"
  vpack_uint :: "64 word \<Rightarrow> string"
  modify_apply_item :: "string \<Rightarrow> string \<Rightarrow> string \<Rightarrow> string"

section \<open>Positioning: \<^verbatim>\<open>__hs_cursor_position_int\<close> and \<^verbatim>\<open>__wt_hs_cursor_position\<close>\<close>

lemma fault_cases:
  "fault s = (r, s1) \<Longrightarrow>
     hs s1 = hs s \<and> cur_pos s1 = cur_pos s \<and> cur_key s1 = cur_key s \<and> bufs s1 = bufs s"
  by (auto simp: fault_def split: list.splits)

text \<open>How far the cursor is from the front of the store; an unpositioned cursor is past the end.\<close>

definition pos_rank :: "nat option \<Rightarrow> nat \<Rightarrow> nat" where
  "pos_rank p n = (case p of None \<Rightarrow> Suc n | Some i \<Rightarrow> i)"

definition cursor_rank :: "'a env_scheme \<Rightarrow> nat" where
  "cursor_rank s = pos_rank (cur_pos s) (length (hs s))"

lemma cursor_prev_rank:
  "cursor_prev s = (0, s1) \<Longrightarrow> cursor_rank s1 < cursor_rank s"
  by (auto simp: cursor_prev_def cursor_place_def logged_def WT_NOTFOUND_def cursor_rank_def
      pos_rank_def dest!: fault_cases split: prod.splits if_splits option.splits nat.splits)

lemma wt_compare_rank:
  "wt_compare s a b = (r, c, s1) \<Longrightarrow> cursor_rank s1 = cursor_rank s"
  by (auto simp: wt_compare_def cursor_rank_def dest!: fault_cases split: prod.splits if_splits)

text \<open>
  Lines 132-138: the loop \<^verbatim>\<open>while ((ret = cursor->prev(cursor)) == 0)\<close>. It ends with
  the code of a failed \<^verbatim>\<open>prev\<close>, with the code of a failed comparison, or with \<open>0\<close> once the
  cursor's raw key compares at or below the saved search key.
\<close>

function hs_position_prev_loop :: "'a env_scheme \<Rightarrow> nat \<Rightarrow> int \<times> 'a env_scheme" where
  "hs_position_prev_loop s srch_key =
     (case cursor_prev s of (r, s1) \<Rightarrow>
        if r \<noteq> 0 then (r, s1)
        else (case wt_compare s1 (cur_key s1) (item_data s1 srch_key) of (r2, cmp, s2) \<Rightarrow>
                if r2 \<noteq> 0 then (r2, s2)
                else if cmp \<le> 0 then (0, s2)
                else hs_position_prev_loop s2 srch_key))"
  by pat_completeness auto
termination
  apply (relation "measure (\<lambda>(s, a). cursor_rank s)")
   apply simp
  apply clarsimp
  apply (drule sym, drule sym)
  apply (drule cursor_prev_rank, drule wt_compare_rank)
  apply simp
  done

declare hs_position_prev_loop.simps [simp del]

text \<open>
  Lines 123-139: copy the raw search key aside, search near, and step backwards when the
  search landed above the key.
\<close>

definition hs_position_search :: "'a env_scheme \<Rightarrow> nat \<Rightarrow> int \<times> 'a env_scheme" where
  "hs_position_search s srch_key =
     (case wt_buf_set s srch_key (cur_key s) of (r, s1) \<Rightarrow>
        if r \<noteq> 0 then (r, s1)
        else (case cursor_search_near s1 of (r2, exact, s2) \<Rightarrow>
                if r2 \<noteq> 0 then (r2, s2)
                else if exact > 0 then hs_position_prev_loop s2 srch_key
                else (0, s2)))"

text \<open>
  \<^verbatim>\<open>__hs_cursor_position_int\<close>. The scratch buffer for the saved key is allocated only
  when the caller passes none, and released on every path after the allocation.
\<close>

definition hs_cursor_position_int ::
  "collab \<Rightarrow> 'a env_scheme \<Rightarrow> 32 word \<Rightarrow> string \<Rightarrow> 64 word \<Rightarrow> nat option \<Rightarrow> int \<times> 'a env_scheme" where
  "hs_cursor_position_int X s btree_id key timestamp user_srch_key =
     (case (case user_srch_key of None \<Rightarrow> wt_scr_alloc s | Some a \<Rightarrow> (0, a, s)) of
        (r, srch_key, s1) \<Rightarrow>
          if r \<noteq> 0 then (r, s1)
          else (case hs_position_search
                       (cursor_set_key s1 (hs_pack_key X btree_id key timestamp UINT64_MAX))
                       srch_key of
                  (ret, s2) \<Rightarrow>
                    (ret, if user_srch_key = None then wt_scr_free s2 (Some srch_key) else s2)))"

text \<open>
  \<^verbatim>\<open>__wt_hs_cursor_position\<close>: \<^verbatim>\<open>WT_WITH_TXN_ISOLATION\<close> saves the isolation level,
  sets the requested one, runs the operation and restores the saved level.
\<close>

definition wt_hs_cursor_position ::
  "collab \<Rightarrow> 'a env_scheme \<Rightarrow> 32 word \<Rightarrow> string \<Rightarrow> 64 word \<Rightarrow> nat option \<Rightarrow> int \<times> 'a env_scheme" where
  "wt_hs_cursor_position X s btree_id key timestamp user_srch_key =
     (case hs_cursor_position_int X (s\<lparr>isolation := WT_ISO_READ_UNCOMMITTED\<rparr>)
             btree_id key timestamp user_srch_key of
        (ret, s1) \<Rightarrow> (ret, s1\<lparr>isolation := isolation s\<rparr>))"

text \<open>
  Modelled from the spec: \<^verbatim>\<open>__wt_hs_cursor_search_near_before\<close> is defined in the cursor
  layer, not in this file. The spec has the resolver call the at-or-before positioning for
  the key it has just loaded on the cursor: the same steps as above (a scratch copy of the
  search key, near-search, backward walk), under the read-uncommitted override.
\<close>

definition wt_hs_cursor_search_near_before :: "'a env_scheme \<Rightarrow> int \<times> 'a env_scheme" where
  "wt_hs_cursor_search_near_before s =
     (case wt_scr_alloc (s\<lparr>isolation := WT_ISO_READ_UNCOMMITTED\<rparr>) of (r, srch_key, s1) \<Rightarrow>
        if r \<noteq> 0 then (r, s1\<lparr>isolation := isolation s\<rparr>)
        else (case hs_position_search s1 srch_key of
                (ret, s2) \<Rightarrow> (ret, (wt_scr_free s2 (Some srch_key))\<lparr>isolation := isolation s\<rparr>)))"

section \<open>The resolver: \<^verbatim>\<open>__wt_hs_find_upd\<close>\<close>

text \<open>
  The resolver's state: the environment, the parameters \<^verbatim>\<open>value_format\<close> and
  \<^verbatim>\<open>on_disk_buf\<close> (a buffer address), the caller's \<^verbatim>\<open>WT_UPDATE_VALUE\<close> (fields
  \<open>uv_...\<close>) and the local variables. \<open>hs_cursor\<close> tells whether the cursor pointer is
  non-null; \<open>modifies\<close> is the modify vector, top first, holding the payload of each
  pushed update; \<open>mod_upd\<close> is the payload of the update \<^verbatim>\<open>mod_upd\<close> points to, if any.
\<close>

record fu_state = env +
  value_format :: string
  on_disk_buf :: nat
  uv_buf :: string
  uv_durable_start_ts :: "64 word"
  uv_start_txn :: "64 word"
  uv_type :: "8 word"
  uv_skip_buf :: bool
  hs_cursor :: bool
  hs_value :: "nat option"
  orig_hs_value_buf :: "nat option"
  modifies :: "string list"
  mod_upd :: "string option"
  durable_timestamp :: "64 word"
  upd_type :: "8 word"
  upd_found :: bool

definition hs_value_data :: "fu_state \<Rightarrow> string" where
  "hs_value_data s = (case hs_value s of None \<Rightarrow> [] | Some a \<Rightarrow> item_data s a)"

text \<open>Modelled from the spec: \<^verbatim>\<open>__wt_curhs_open\<close> opens a fresh history-store cursor.\<close>

definition wt_curhs_open :: "fu_state \<Rightarrow> int \<times> fu_state" where
  "wt_curhs_open s =
     (case fault s of (r, s1) \<Rightarrow>
        if r \<noteq> 0 then (r, s1)
        else (0, s1\<lparr>cursors_open := cursors_open s1 + 1, cur_pos := None, cur_key := [],
                     cur_read_committed := False, hs_cursor := True\<rparr>))"

text \<open>
  Modelled from the spec: \<^verbatim>\<open>close\<close> releases the cursor whatever code it reports.
\<close>

definition cursor_close :: "fu_state \<Rightarrow> int \<times> fu_state" where
  "cursor_close s =
     (case fault s of (r, s1) \<Rightarrow> (r, s1\<lparr>cursors_open := cursors_open s1 - 1, cur_pos := None\<rparr>))"

text \<open>
  \<^verbatim>\<open>hs_cursor->get_value(..., hs_value)\<close> leaves the record's payload in the buffer
  \<^verbatim>\<open>hs_value\<close> points to.
\<close>

definition store_hs_value :: "fu_state \<Rightarrow> hs_rec \<Rightarrow> fu_state" where
  "store_hs_value s v =
     (case hs_value s of None \<Rightarrow> s | Some a \<Rightarrow> s\<lparr>bufs := (bufs s)(a \<mapsto> rec_value v)\<rparr>)"

text \<open>\<^verbatim>\<open>__wt_upd_alloc(session, hs_value, upd_type, &mod_upd, NULL)\<close>: a new update holding a copy of the value.\<close>

definition wt_upd_alloc :: "fu_state \<Rightarrow> int \<times> fu_state" where
  "wt_upd_alloc s =
     (case fault s of (r, s1) \<Rightarrow>
        if r \<noteq> 0 then (r, s1)
        else (0, s1\<lparr>upd_live := upd_live s1 + 1, mod_upd := Some (hs_value_data s1)\<rparr>))"

text \<open>\<^verbatim>\<open>__wt_free_update_list(session, &mod_upd)\<close>: frees the update, if any, and nulls the pointer.\<close>

definition wt_free_update_list :: "fu_state \<Rightarrow> fu_state" where
  "wt_free_update_list s =
     (case mod_upd s of None \<Rightarrow> s | Some d \<Rightarrow> s\<lparr>upd_live := upd_live s - 1, mod_upd := None\<rparr>)"

definition wt_modify_vector_push :: "fu_state \<Rightarrow> int \<times> fu_state" where
  "wt_modify_vector_push s =
     (case fault s of (r, s1) \<Rightarrow>
        if r \<noteq> 0 then (r, s1)
        else (0, case mod_upd s1 of None \<Rightarrow> s1 | Some d \<Rightarrow> s1\<lparr>modifies := d # modifies s1\<rparr>))"

definition wt_modify_vector_pop :: "fu_state \<Rightarrow> fu_state" where
  "wt_modify_vector_pop s =
     (case modifies s of [] \<Rightarrow> s | d # ds \<Rightarrow> s\<lparr>modifies := ds, mod_upd := Some d\<rparr>)"

text \<open>
  \<^verbatim>\<open>__wt_modify_apply_item(session, value_format, hs_value, mod_upd->data)\<close>: the buffer
  \<^verbatim>\<open>hs_value\<close> points to is rewritten in place.
\<close>

definition wt_modify_apply_item :: "collab \<Rightarrow> fu_state \<Rightarrow> int \<times> fu_state" where
  "wt_modify_apply_item X s =
     (case fault s of (r, s1) \<Rightarrow>
        if r \<noteq> 0 then (r, s1)
        else (0, case (hs_value s1, mod_upd s1) of
                   (Some a, Some d) \<Rightarrow>
                     s1\<lparr>bufs := (bufs s1)(a \<mapsto> modify_apply_item X (value_format s1) (item_data s1 a) d)\<rparr>
                 | _ \<Rightarrow> s1))"

text \<open>How many records lie at or after the cursor; an unpositioned cursor is before the first.\<close>

definition pos_room :: "nat option \<Rightarrow> nat \<Rightarrow> nat" where
  "pos_room p n = (case p of None \<Rightarrow> Suc n | Some i \<Rightarrow> n - i)"

definition cursor_room :: "'a env_scheme \<Rightarrow> nat" where
  "cursor_room s = pos_room (cur_pos s) (length (hs s))"

lemma fault_fu_frame:
  "fault s = (r, s1) \<Longrightarrow> modifies s1 = modifies s \<and> mod_upd s1 = mod_upd s \<and> hs_value s1 = hs_value s"
  by (auto simp: fault_def split: list.splits)

lemma fault_room: "fault s = (r, s1) \<Longrightarrow> cursor_room s1 = cursor_room s"
  by (auto simp: fault_def cursor_room_def split: list.splits)

lemma wt_upd_alloc_room: "wt_upd_alloc s = (r, s1) \<Longrightarrow> cursor_room s1 = cursor_room s"
  by (auto simp: wt_upd_alloc_def cursor_room_def dest!: fault_cases split: prod.splits if_splits option.splits)

lemma wt_modify_vector_push_room: "wt_modify_vector_push s = (r, s1) \<Longrightarrow> cursor_room s1 = cursor_room s"
  by (auto simp: wt_modify_vector_push_def cursor_room_def dest!: fault_cases split: prod.splits if_splits option.splits)

lemma cursor_next_room: "cursor_next s = (0, s1) \<Longrightarrow> cursor_room s1 < cursor_room s"
  by (auto simp: cursor_next_def cursor_place_def logged_def WT_NOTFOUND_def cursor_room_def Let_def pos_room_def
      dest!: fault_cases split: prod.splits if_splits option.splits)

lemma cursor_get_value_room: "cursor_get_value s = (r, v, s1) \<Longrightarrow> cursor_room s1 = cursor_room s"
  by (auto simp: cursor_get_value_def logged_def cursor_room_def dest!: fault_cases
      split: prod.splits if_splits option.splits)

lemma store_hs_value_room: "cursor_room (store_hs_value s v) = cursor_room s"
  by (auto simp: store_hs_value_def cursor_room_def split: option.splits)

lemma cursor_room_upd [simp]:
  "cursor_room (s\<lparr>mod_upd := m\<rparr>) = cursor_room s"
  "cursor_room (s\<lparr>upd_type := u\<rparr>) = cursor_room s"
  by (simp_all add: cursor_room_def)

text \<open>
  Lines 286-314: the loop \<^verbatim>\<open>while (upd_type == WT_UPDATE_MODIFY)\<close>. Each round
  allocates an update for the current modify, pushes it, and advances the cursor with
  \<^verbatim>\<open>next\<close>. When \<^verbatim>\<open>next\<close> reports not-found the scratch buffer is remembered in
  \<^verbatim>\<open>orig_hs_value_buf\<close>, \<^verbatim>\<open>hs_value\<close> is pointed at the caller's on-disk buffer and
  the type becomes standard. Otherwise the next record's value and type are read.
\<close>

function hs_find_upd_walk :: "fu_state \<Rightarrow> int \<times> fu_state" where
  "hs_find_upd_walk s =
     (if upd_type s \<noteq> WT_UPDATE_MODIFY then (0, s)
      else (case wt_upd_alloc s of (r1, s1) \<Rightarrow>
        if r1 \<noteq> 0 then (r1, s1)
        else (case wt_modify_vector_push s1 of (r2, s2) \<Rightarrow>
          if r2 \<noteq> 0 then (r2, s2)
          else (case cursor_next (s2\<lparr>mod_upd := None\<rparr>) of (r3, s3) \<Rightarrow>
            if r3 = WT_NOTFOUND then
              (0, s3\<lparr>orig_hs_value_buf := hs_value s3, hs_value := Some (on_disk_buf s3),
                      upd_type := WT_UPDATE_STANDARD\<rparr>)
            else if r3 \<noteq> 0 then (r3, s3)
            else (case cursor_get_value s3 of (r4, v, s4) \<Rightarrow>
              if r4 \<noteq> 0 then (r4, s4)
              else hs_find_upd_walk
                     ((store_hs_value s4 v)\<lparr>upd_type := ucast (rec_upd_type_full v)\<rparr>))))))"
  by pat_completeness auto
termination
  apply (relation "measure cursor_room")
   apply simp
  apply clarsimp
  apply (drule wt_upd_alloc_room [OF sym], drule wt_modify_vector_push_room [OF sym],
      drule cursor_next_room [OF sym], drule cursor_get_value_room [OF sym])
  apply (simp add: store_hs_value_room)
  done

lemma wt_modify_apply_item_modifies:
  "wt_modify_apply_item X s = (r, s1) \<Longrightarrow> modifies s1 = modifies s"
  by (auto simp: wt_modify_apply_item_def dest!: fault_fu_frame split: prod.splits if_splits option.splits)

lemma wt_free_update_list_modifies [simp]: "modifies (wt_free_update_list s) = modifies s"
  by (simp add: wt_free_update_list_def split: option.splits)

lemma wt_modify_vector_pop_length:
  "modifies s \<noteq> [] \<Longrightarrow> length (modifies (wt_modify_vector_pop s)) < length (modifies s)"
  by (simp add: wt_modify_vector_pop_def split: list.splits)

text \<open>
  Lines 316-320: pop each update and apply it to the buffer \<^verbatim>\<open>hs_value\<close> points to.
\<close>

function hs_find_upd_squash :: "collab \<Rightarrow> fu_state \<Rightarrow> int \<times> fu_state" where
  "hs_find_upd_squash X s =
     (if modifies s = [] then (0, s)
      else (case wt_modify_apply_item X (wt_modify_vector_pop s) of (r, s1) \<Rightarrow>
              if r \<noteq> 0 then (r, s1) else hs_find_upd_squash X (wt_free_update_list s1)))"
  by pat_completeness auto
termination
  apply (relation "measure (\<lambda>(X, s). length (modifies s))")
   apply simp
  apply clarsimp
  apply (drule wt_modify_apply_item_modifies [OF sym])
  apply (simp add: wt_modify_vector_pop_length)
  done

text \<open>Lines 344-347: pop and free whatever is left on the modify vector.\<close>

function hs_find_upd_drain :: "fu_state \<Rightarrow> fu_state" where
  "hs_find_upd_drain s =
     (if modifies s = [] then s
      else hs_find_upd_drain (wt_free_update_list (wt_modify_vector_pop s)))"
  by pat_completeness auto
termination
  apply (relation "measure (\<lambda>s. length (modifies s))")
   apply simp
  apply (simp add: wt_modify_vector_pop_length)
  done

declare hs_find_upd_walk.simps [simp del]
declare hs_find_upd_squash.simps [simp del]
declare hs_find_upd_drain.simps [simp del]

text \<open>Lines 330-333, the label \<^verbatim>\<open>skip_buf\<close>: the metadata reported to the caller.\<close>

definition hs_find_upd_report :: "fu_state \<Rightarrow> fu_state" where
  "hs_find_upd_report s =
     s\<lparr>uv_durable_start_ts := durable_timestamp s, uv_start_txn := WT_TXN_NONE,
       uv_type := upd_type s\<rparr>"

text \<open>\<^verbatim>\<open>__wt_buf_set(session, &upd_value->buf, hs_value->data, hs_value->size)\<close>.\<close>

definition wt_buf_set_upd_value :: "fu_state \<Rightarrow> int \<times> fu_state" where
  "wt_buf_set_upd_value s =
     (case fault s of (r, s1) \<Rightarrow>
        if r \<noteq> 0 then (r, s1) else (0, s1\<lparr>uv_buf := hs_value_data s1\<rparr>))"

text \<open>
  Lines 274-322: a modify is rebuilt by the walk (with the cursor flag
  \<^verbatim>\<open>WT_CURSTD_HS_READ_COMMITTED\<close> set first) and the squash; any other record is
  complete as read.
\<close>

definition hs_find_upd_build :: "collab \<Rightarrow> fu_state \<Rightarrow> int \<times> fu_state" where
  "hs_find_upd_build X s =
     (if upd_type s = WT_UPDATE_MODIFY then
        (case hs_find_upd_walk (s\<lparr>cur_read_committed := True\<rparr>) of
           (r, s1) \<Rightarrow> if r \<noteq> 0 then (r, s1) else hs_find_upd_squash X s1)
      else (0, s))"

text \<open>Lines 329-333: copy the value into the caller's buffer and report the metadata.\<close>

definition hs_find_upd_copy :: "fu_state \<Rightarrow> int \<times> fu_state" where
  "hs_find_upd_copy s =
     (case wt_buf_set_upd_value s of (r, s1) \<Rightarrow>
        if r \<noteq> 0 then (r, s1) else (0, hs_find_upd_report s1))"

text \<open>
  Lines 252-333: read the record the cursor was positioned on and, unless the caller
  asked for no payload (the jump to \<^verbatim>\<open>skip_buf\<close>), rebuild and copy the value.
\<close>

definition hs_find_upd_value :: "collab \<Rightarrow> fu_state \<Rightarrow> int \<times> fu_state" where
  "hs_find_upd_value X s =
     (case wt_scr_alloc s of (r, a, s1) \<Rightarrow>
        if r \<noteq> 0 then (r, s1)
        else (case cursor_get_value (s1\<lparr>hs_value := Some a\<rparr>) of (r2, v, s2) \<Rightarrow>
          if r2 \<noteq> 0 then (r2, s2)
          else let s3 = (store_hs_value s2 v)
                          \<lparr>durable_timestamp := rec_durable_ts v,
                           upd_type := ucast (rec_upd_type_full v), upd_found := True\<rparr> in
            if uv_skip_buf s3 then (0, hs_find_upd_report s3)
            else (case hs_find_upd_build X s3 of (r3, s4) \<Rightarrow>
                    if r3 \<noteq> 0 then (r3, s4) else hs_find_upd_copy s4)))"

text \<open>
  Lines 231-333: open the cursor, load the search key with the effective read timestamp and
  the largest counter, position at or before it. Not-found from the positioning is turned
  into success (the jump to \<^verbatim>\<open>done\<close>). The result is \<^verbatim>\<open>ret\<close> at the labels
  \<^verbatim>\<open>done\<close>/\<^verbatim>\<open>err\<close>.
\<close>

definition hs_find_upd_search ::
  "collab \<Rightarrow> fu_state \<Rightarrow> 64 word \<Rightarrow> 32 word \<Rightarrow> string \<Rightarrow> int \<times> fu_state" where
  "hs_find_upd_search X s txn_read_timestamp btree_id key =
     (case wt_curhs_open s of (r, s1) \<Rightarrow>
        if r \<noteq> 0 then (r, s1)
        else let read_timestamp =
                   (if txn_read_timestamp = WT_TS_NONE then WT_TS_MAX else txn_read_timestamp);
                 s2 = cursor_set_key s1 (hs_pack_key X btree_id key read_timestamp UINT64_MAX) in
          (case wt_hs_cursor_search_near_before s2 of (r2, s3) \<Rightarrow>
             if r2 = WT_NOTFOUND then (0, s3)
             else if r2 \<noteq> 0 then (r2, s3)
             else hs_find_upd_value X s3))"

text \<open>
  Lines 335-363, from the labels \<^verbatim>\<open>done\<close>/\<^verbatim>\<open>err\<close> to the last assertion: release the
  scratch buffer (the remembered one when \<^verbatim>\<open>hs_value\<close> was redirected to the on-disk
  buffer), free the update in hand and the vector, and mark the result invalid when nothing
  was found or an error occurred.
\<close>

definition hs_find_upd_cleanup :: "int \<times> fu_state \<Rightarrow> int \<times> fu_state" where
  "hs_find_upd_cleanup rs =
     (case rs of (ret, s) \<Rightarrow>
        let s1 = (if orig_hs_value_buf s \<noteq> None
                  then (wt_scr_free s (orig_hs_value_buf s))\<lparr>orig_hs_value_buf := None\<rparr>
                  else (wt_scr_free s (hs_value s))\<lparr>hs_value := None\<rparr>);
            s2 = hs_find_upd_drain (wt_free_update_list s1);
            s3 = (if ret = 0 \<and> \<not> upd_found s2 then s2\<lparr>uv_type := WT_UPDATE_INVALID\<rparr> else s2);
            s4 = (if ret \<noteq> 0 then s3\<lparr>uv_type := WT_UPDATE_INVALID\<rparr> else s3)
        in (ret, s4))"

text \<open>
  Lines 365-366: close the cursor if it was opened; \<^verbatim>\<open>WT_TRET\<close> merges the close code
  into \<^verbatim>\<open>ret\<close>.
\<close>

definition hs_find_upd_close :: "int \<times> fu_state \<Rightarrow> int \<times> fu_state" where
  "hs_find_upd_close rs =
     (case rs of (ret, s) \<Rightarrow>
        if hs_cursor s then (case cursor_close s of (r2, s3) \<Rightarrow> (WT_TRET ret r2, s3))
        else (ret, s))"

text \<open>
  \<^verbatim>\<open>__wt_hs_find_upd\<close>. \<open>txn_read_timestamp\<close> is the session's shared read timestamp;
  \<open>key\<close> is the row-store key when there is one, otherwise the record number is packed.
  A failure of the packing returns at once (\<^verbatim>\<open>WT_RET\<close>); every later path runs the
  cleanup and closes the cursor if it was opened, the close code merged by \<^verbatim>\<open>WT_TRET\<close>.
  The diagnostic assertions and the statistics counters are left out.
\<close>

definition wt_hs_find_upd ::
  "collab \<Rightarrow> fu_state \<Rightarrow> 64 word \<Rightarrow> 32 word \<Rightarrow> string option \<Rightarrow> 64 word \<Rightarrow> int \<times> fu_state" where
  "wt_hs_find_upd X s txn_read_timestamp btree_id key recno =
     (let s0 = s\<lparr>hs_cursor := False, hs_value := None, orig_hs_value_buf := None,
                modifies := [], mod_upd := None, upd_found := False\<rparr> in
      case (case key of
              Some k \<Rightarrow> (0, k, s0)
            | None \<Rightarrow> (case fault s0 of (r, s1) \<Rightarrow> (r, vpack_uint X recno, s1))) of
        (r, k, s1) \<Rightarrow>
          if r \<noteq> 0 then (r, s1)
          else hs_find_upd_close
                 (hs_find_upd_cleanup (hs_find_upd_search X s1 txn_read_timestamp btree_id k)))"

section \<open>Searching a pinned page first: \<^verbatim>\<open>__wt_hs_row_search\<close>\<close>

text \<open>
  The btree cursor as far as this function reads it: the pinned page reference (with the
  page's entry count), and the comparison result and slot the last search left. The row
  search, the cursor reset and the key and value materialisation are defined elsewhere in
  the engine and are taken as parameters; they act on the whole cursor.
\<close>

record page_ref =
  page_entries :: "32 word"

record cursor_btree =
  cbt_ref :: "page_ref option"
  cbt_compare :: int
  cbt_slot :: "32 word"

record 'c row_ops =
  row_search :: "'c \<Rightarrow> string \<Rightarrow> bool \<Rightarrow> page_ref option \<Rightarrow> int \<times> bool \<times> 'c"
  cursor_reset :: "'c \<Rightarrow> 'c"
  key_return :: "'c \<Rightarrow> int \<times> 'c"
  value_return :: "'c \<Rightarrow> int \<times> 'c"
  cursor_reset_int :: "'c \<Rightarrow> int \<times> 'c"

text \<open>
  \<^verbatim>\<open>hs_cbt->ref->page->entries\<close>. The pinned-page search leaves the reference it was
  given; with a null reference the C expression has no value, and \<open>0\<close> stands for it.
\<close>

definition ref_entries :: "'a cursor_btree_scheme \<Rightarrow> 32 word" where
  "ref_entries c = (case cbt_ref c of None \<Rightarrow> 0 | Some p \<Rightarrow> page_entries p)"

text \<open>
  Lines 51-64: after a successful search for a read, materialise key and value; a failure
  there resets the cursor (\<^verbatim>\<open>__cursor_reset\<close>) and is returned.
\<close>

definition hs_row_search_return ::
  "'a cursor_btree_scheme row_ops \<Rightarrow> bool \<Rightarrow> int \<times> 'a cursor_btree_scheme \<Rightarrow>
   int \<times> 'a cursor_btree_scheme" where
  "hs_row_search_return B for_insert rc =
     (case rc of (ret, c) \<Rightarrow>
        if ret = 0 \<and> \<not> for_insert then
          (case key_return B c of (r1, c1) \<Rightarrow>
             if r1 \<noteq> 0 then (case cursor_reset_int B c1 of (r, c') \<Rightarrow> (WT_TRET r1 r, c'))
             else (case value_return B c1 of (r2, c2) \<Rightarrow>
                     if r2 \<noteq> 0
                     then (case cursor_reset_int B c2 of (r, c') \<Rightarrow> (WT_TRET r2 r, c'))
                     else (0, c2)))
        else (ret, c))"

text \<open>
  \<^verbatim>\<open>__wt_hs_row_search\<close>. With a pinned page, search it first; an error of that search
  is returned at once. The pinned result is dropped when it is an inexact match on the
  page's first or last slot, or when the search did not find the leaf; then the cursor is
  reset and the tree is searched from the root.
\<close>

definition wt_hs_row_search ::
  "'a cursor_btree_scheme row_ops \<Rightarrow> 'a cursor_btree_scheme \<Rightarrow> string \<Rightarrow> bool \<Rightarrow>
   int \<times> 'a cursor_btree_scheme" where
  "wt_hs_row_search B hs_cbt srch_key for_insert =
     (case cbt_ref hs_cbt of
        None \<Rightarrow>
          hs_row_search_return B for_insert
            (case row_search B hs_cbt srch_key for_insert None of (ret, found, c) \<Rightarrow> (ret, c))
      | Some leaf \<Rightarrow>
          (case row_search B hs_cbt srch_key for_insert (Some leaf) of (ret, found, c1) \<Rightarrow>
             if ret \<noteq> 0 then (ret, c1)
             else let leaf_found =
                        (if found \<and> (cbt_compare c1 \<noteq> 0 \<and>
                                      (cbt_slot c1 = 0 \<or> cbt_slot c1 = ref_entries c1 - 1))
                         then False else found) in
               if \<not> leaf_found
               then hs_row_search_return B for_insert
                      (case row_search B (cursor_reset B c1) srch_key for_insert None of
                         (ret2, found2, c2) \<Rightarrow> (ret2, c2))
               else hs_row_search_return B for_insert (0, c1)))"

section \<open>A worked example\<close>

text \<open>
  Collaborators for the example: the key fields packed big-endian at fixed width around
  the record key, and a modify payload made of an offset byte, a size byte and the
  replacement bytes (replace \<open>size\<close> bytes at \<open>offset\<close> by the data).
\<close>

fun be_bytes :: "nat \<Rightarrow> 'a::len word \<Rightarrow> string" where
  "be_bytes 0 w = []"
| "be_bytes (Suc n) w = char_of (unat (take_bit 8 (drop_bit (8 * n) w))) # be_bytes n w"

definition demo_pack_key :: "32 word \<Rightarrow> string \<Rightarrow> 64 word \<Rightarrow> 64 word \<Rightarrow> string" where
  "demo_pack_key b k ts c = be_bytes 4 b @ k @ be_bytes 8 ts @ be_bytes 8 c"

definition demo_apply :: "string \<Rightarrow> string \<Rightarrow> string \<Rightarrow> string" where
  "demo_apply fmt base d =
     (case d of
        off # sz # data \<Rightarrow> take (of_char off) base @ data @ drop (of_char off + of_char sz) base
      | _ \<Rightarrow> base)"

definition demo :: collab where
  "demo = \<lparr>hs_pack_key = demo_pack_key, vpack_uint = be_bytes 8, modify_apply_item = demo_apply\<rparr>"

definition demo_rec :: "64 word \<Rightarrow> 8 word \<Rightarrow> string \<Rightarrow> hs_rec" where
  "demo_rec ts ty v =
     \<lparr>rec_stop_durable_ts = ts, rec_durable_ts = ts, rec_upd_type_full = ucast ty, rec_value = v\<rparr>"

text \<open>
  The store of the spec's scenario: for key \<open>K\<close> of table 1, a standard \<open>abc\<close> at timestamp
  10, a modify replacing byte 0 by \<open>x\<close> at 20, and a modify appending \<open>!\<close> (at offset 3) at 30.
\<close>

definition demo_store :: "(string \<times> hs_rec) list" where
  "demo_store =
     [(demo_pack_key 1 ''K'' 10 0, demo_rec 10 WT_UPDATE_STANDARD ''abc''),
      (demo_pack_key 1 ''K'' 20 0, demo_rec 20 WT_UPDATE_MODIFY [CHR 0x00, CHR 0x01, CHR ''x'']),
      (demo_pack_key 1 ''K'' 30 0, demo_rec 30 WT_UPDATE_MODIFY [CHR 0x03, CHR 0x00, CHR ''!''])]"

text \<open>
  A store laid out the way the resolver reads it, newest full value last: for key \<open>K\<close> of
  table 1, a modify at timestamp 10 putting \<open>a\<close> back at byte 0, a modify at 20 dropping
  the byte at offset 3, and the standard value \<open>xbc!\<close> at 30.
\<close>

definition demo_store_rev :: "(string \<times> hs_rec) list" where
  "demo_store_rev =
     [(demo_pack_key 1 ''K'' 10 0, demo_rec 10 WT_UPDATE_MODIFY [CHR 0x00, CHR 0x01, CHR ''a'']),
      (demo_pack_key 1 ''K'' 20 0, demo_rec 20 WT_UPDATE_MODIFY [CHR 0x03, CHR 0x01]),
      (demo_pack_key 1 ''K'' 30 0, demo_rec 30 WT_UPDATE_STANDARD ''xbc!'')]"

text \<open>
  A resolver state over a store: the caller's on-disk buffer at address 0 holding \<open>disk\<close>,
  the given fault schedule, and an empty result.
\<close>

definition demo_state :: "(string \<times> hs_rec) list \<Rightarrow> int list \<Rightarrow> string \<Rightarrow> bool \<Rightarrow> fu_state" where
  "demo_state st fs disk skip =
     \<lparr>hs = st, faults = fs, near_landing = LandAfter 0, isolation = WT_ISO_SNAPSHOT,
      bufs = (\<lambda>a. if a = 0 then Some disk else None), next_addr = 1, upd_live = 0,
      cursors_open = 0, cur_pos = None, cur_key = [], cur_read_committed = False, calls = [],
      value_format = ''u'', on_disk_buf = 0, uv_buf = [], uv_durable_start_ts = 0,
      uv_start_txn = 0, uv_type = 0, uv_skip_buf = skip, hs_cursor = False, hs_value = None,
      orig_hs_value_buf = None, modifies = [], mod_upd = None, durable_timestamp = 0,
      upd_type = 0, upd_found = False\<rparr>"

text \<open>
  The resolver in the middle of a call on the second store, as lines 253-284 leave it: the
  cursor on the modify at timestamp 10, its payload in the scratch buffer at address 1.
\<close>

definition demo_reading :: fu_state where
  "demo_reading =
     (demo_state demo_store_rev [] ''zzz'' False)
       \<lparr>bufs := (\<lambda>a. if a = 0 then Some ''zzz''
                     else if a = 1 then Some [CHR 0x00, CHR 0x01, CHR ''a''] else None),
        next_addr := 2, cursors_open := 1, cur_pos := Some 0,
        cur_key := demo_pack_key 1 ''K'' 10 0, cur_read_committed := True,
        hs_cursor := True, hs_value := Some 1, durable_timestamp := 10,
        upd_type := WT_UPDATE_MODIFY, upd_found := True\<rparr>"

text \<open>Row-search collaborators for the example: the search reports what it is told to.\<close>

definition demo_row_ops :: "int \<Rightarrow> 32 word \<Rightarrow> cursor_btree row_ops" where
  "demo_row_ops cmp sl =
     \<lparr>row_search = (\<lambda>c k ins leaf.
        (0, leaf \<noteq> None,
         if leaf = None then c\<lparr>cbt_compare := 0, cbt_slot := 7\<rparr>
         else c\<lparr>cbt_compare := cmp, cbt_slot := sl\<rparr>)),
      cursor_reset = (\<lambda>c. c\<lparr>cbt_ref := None\<rparr>),
      key_return = (\<lambda>c. (0, c)), value_return = (\<lambda>c. (0, c)),
      cursor_reset_int = (\<lambda>c. (0, c\<lparr>cbt_ref := None\<rparr>))\<rparr>"

definition demo_cbt :: cursor_btree where
  "demo_cbt = \<lparr>cbt_ref = Some \<lparr>page_entries = 10\<rparr>, cbt_compare = 0, cbt_slot = 0\<rparr>"

section \<open>Positioning without failures\<close>

text \<open>
  What the positioning steps compute when no collaborator fails and the store is in
  ascending raw-key order. The results give the final state in full; only the log of
  cursor calls is left open.
\<close>

lemma fault_nil: "faults s = [] \<Longrightarrow> fault s = (0, s)"
  by (simp add: fault_def)

lemma logged_simps [simp]:
  "faults (logged op s) = faults s" "hs (logged op s) = hs s" "cur_pos (logged op s) = cur_pos s"
  "cur_key (logged op s) = cur_key s" "bufs (logged op s) = bufs s"
  "near_landing (logged op s) = near_landing s" "isolation (logged op s) = isolation s"
  "next_addr (logged op s) = next_addr s" "upd_live (logged op s) = upd_live s"
  "cursors_open (logged op s) = cursors_open s"
  "cur_read_committed (logged op s) = cur_read_committed s"
  by (simp_all add: logged_def)

lemma wt_compare_nil:
  "faults s = [] \<Longrightarrow>
     wt_compare s x y = (0, (if x < y then - 1 else if x = y then 0 else 1), s)"
  by (simp add: wt_compare_def fault_nil)

lemma item_data_eq: "bufs s' = bufs s \<Longrightarrow> item_data s' a = item_data s a"
  by (simp add: item_data_def)

lemma lower_bound_le: "lower_bound k st \<le> length st"
  by (simp add: lower_bound_def length_takeWhile_le)

lemma lower_bound_below: "j < lower_bound k st \<Longrightarrow> fst (st ! j) < k"
  unfolding lower_bound_def
  by (metis nth_mem set_takeWhileD takeWhile_nth)

lemma lower_bound_at: "lower_bound k st < length st \<Longrightarrow> \<not> fst (st ! lower_bound k st) < k"
  unfolding lower_bound_def by (rule nth_length_takeWhile)

lemma sorted_keys_mono:
  fixes st :: "(string \<times> hs_rec) list"
  shows "sorted_wrt (<) (map fst st) \<Longrightarrow> i \<le> j \<Longrightarrow> j < length st \<Longrightarrow> fst (st ! i) \<le> fst (st ! j)"
  by (cases "i = j") (auto simp: sorted_wrt_iff_nth_less less_imp_le)

lemma lower_bound_above:
  assumes "sorted_wrt (<) (map fst st)" "lower_bound k st \<le> j" "j < length st"
  shows "k \<le> fst (st ! j)"
proof -
  have "lower_bound k st < length st" using assms by simp
  then have "k \<le> fst (st ! lower_bound k st)" using lower_bound_at by fastforce
  also have "\<dots> \<le> fst (st ! j)" using assms by (rule sorted_keys_mono)
  finally show ?thesis .
qed

lemma prev_loop_found:
  assumes "faults s = []" "cur_pos s = Some p"
    and "\<forall>j. p \<le> j \<and> j < length (hs s) \<longrightarrow> item_data s a < fst (hs s ! j)"
    and "\<exists>j<p. fst (hs s ! j) \<le> item_data s a"
  shows "\<exists>i c. i < p \<and> fst (hs s ! i) \<le> item_data s a
           \<and> (\<forall>j<length (hs s). fst (hs s ! j) \<le> item_data s a \<longrightarrow> j \<le> i)
           \<and> hs_position_prev_loop s a = (0, s\<lparr>cur_pos := Some i, cur_key := fst (hs s ! i), calls := c\<rparr>)"
  using assms
proof (induction p arbitrary: s)
  case 0
  then show ?case by simp
next
  case (Suc p)
  let ?k = "item_data s a"
  let ?s1 = "(logged OpPrev s)\<lparr>cur_pos := Some p, cur_key := fst (hs s ! p)\<rparr>"
  have prev: "cursor_prev s = (0, ?s1)"
    using Suc.prems(1,2) by (simp add: cursor_prev_def fault_nil cursor_place_def)
  have f1: "faults ?s1 = []" using Suc.prems(1) by simp
  have k1: "item_data ?s1 a = ?k" by (simp add: item_data_def)
  show ?case
  proof (cases "fst (hs s ! p) \<le> ?k")
    case True
    have "hs_position_prev_loop s a = (0, ?s1)"
      using True by (subst hs_position_prev_loop.simps) (auto simp: prev wt_compare_nil [OF f1] k1)
    moreover have "\<forall>j<length (hs s). fst (hs s ! j) \<le> ?k \<longrightarrow> j \<le> p"
    proof (intro allI impI)
      fix j assume j: "j < length (hs s)" "fst (hs s ! j) \<le> ?k"
      show "j \<le> p"
      proof (rule ccontr)
        assume "\<not> j \<le> p"
        then have "Suc p \<le> j" by simp
        with Suc.prems(3) j(1) have "?k < fst (hs s ! j)" by simp
        with j(2) show False by simp
      qed
    qed
    ultimately show ?thesis
      using True by (intro exI[of _ p] exI[of _ "calls ?s1"]) (simp add: logged_def)
  next
    case False
    have step: "hs_position_prev_loop s a = hs_position_prev_loop ?s1 a"
      using False by (subst hs_position_prev_loop.simps) (auto simp: prev wt_compare_nil [OF f1] k1)
    have above: "\<forall>j. p \<le> j \<and> j < length (hs ?s1) \<longrightarrow> item_data ?s1 a < fst (hs ?s1 ! j)"
    proof (intro allI impI)
      fix j assume j: "p \<le> j \<and> j < length (hs ?s1)"
      show "item_data ?s1 a < fst (hs ?s1 ! j)"
      proof (cases "j = p")
        case True
        then show ?thesis using False k1 by simp
      next
        case neq: False
        with j have "Suc p \<le> j" by simp
        with Suc.prems(3) j show ?thesis by (simp add: k1)
      qed
    qed
    have ex: "\<exists>j<p. fst (hs ?s1 ! j) \<le> item_data ?s1 a"
    proof -
      from Suc.prems(4) obtain j where j: "j < Suc p" "fst (hs s ! j) \<le> ?k" by blast
      with False have "j \<noteq> p" by auto
      with j have "j < p" by simp
      with j(2) show ?thesis by (auto simp: k1)
    qed
    from Suc.IH[of ?s1, OF f1 _ above ex]
    obtain i c where "i < p" "fst (hs s ! i) \<le> ?k"
      "\<forall>j<length (hs s). fst (hs s ! j) \<le> ?k \<longrightarrow> j \<le> i"
      "hs_position_prev_loop ?s1 a = (0, ?s1\<lparr>cur_pos := Some i, cur_key := fst (hs s ! i), calls := c\<rparr>)"
      by (auto simp: k1)
    then show ?thesis
      unfolding step by (intro exI[of _ i] exI[of _ c]) (simp add: logged_def)
  qed
qed

lemma prev_loop_none:
  assumes "faults s = []" "cur_pos s = Some p"
    and "\<forall>j<p. item_data s a < fst (hs s ! j)"
  shows "\<exists>c q. hs_position_prev_loop s a = (WT_NOTFOUND, s\<lparr>cur_pos := None, cur_key := q, calls := c\<rparr>)"
  using assms
proof (induction p arbitrary: s)
  case 0
  have "hs_position_prev_loop s a = (WT_NOTFOUND, (logged OpPrev s)\<lparr>cur_pos := None\<rparr>)"
    using 0 by (subst hs_position_prev_loop.simps) (simp add: cursor_prev_def fault_nil WT_NOTFOUND_def)
  then show ?case
    by (intro exI[of _ "calls (logged OpPrev s)"] exI[of _ "cur_key s"]) (simp add: logged_def)
next
  case (Suc p)
  let ?k = "item_data s a"
  let ?s1 = "(logged OpPrev s)\<lparr>cur_pos := Some p, cur_key := fst (hs s ! p)\<rparr>"
  have prev: "cursor_prev s = (0, ?s1)"
    using Suc.prems(1,2) by (simp add: cursor_prev_def fault_nil cursor_place_def)
  have f1: "faults ?s1 = []" using Suc.prems(1) by simp
  have k1: "item_data ?s1 a = ?k" by (simp add: item_data_def)
  have "?k < fst (hs s ! p)" using Suc.prems(3) by simp
  then have step: "hs_position_prev_loop s a = hs_position_prev_loop ?s1 a"
    by (subst hs_position_prev_loop.simps) (auto simp: prev wt_compare_nil [OF f1] k1)
  have "\<forall>j<p. item_data ?s1 a < fst (hs ?s1 ! j)"
    using Suc.prems(3) by (simp add: k1)
  from Suc.IH[of ?s1, OF f1 _ this]
  obtain c q where "hs_position_prev_loop ?s1 a = (WT_NOTFOUND, ?s1\<lparr>cur_pos := None, cur_key := q, calls := c\<rparr>)"
    by auto
  then show ?case
    unfolding step by (intro exI[of _ c] exI[of _ q]) (simp add: logged_def)
qed


lemma lower_bound_strictly_above:
  fixes st :: "(string \<times> hs_rec) list"
  assumes "sorted_wrt (<) (map fst st)"
    and "\<not> (lower_bound k st < length st \<and> fst (st ! lower_bound k st) = k)"
    and "lower_bound k st \<le> j" "j < length st"
  shows "k < fst (st ! j)"
proof -
  let ?i = "lower_bound k st"
  have i: "?i < length st" using assms(3,4) by simp
  have "k \<le> fst (st ! ?i)" using lower_bound_at[OF i] by simp
  with assms(2) i have "k < fst (st ! ?i)" by auto
  also have "\<dots> \<le> fst (st ! j)" using assms(1,3,4) by (rule sorted_keys_mono)
  finally show ?thesis .
qed

lemma exact_is_greatest:
  fixes st :: "(string \<times> hs_rec) list"
  assumes "sorted_wrt (<) (map fst st)" "i < length st" "fst (st ! i) = k"
    "j < length st" "fst (st ! j) \<le> k"
  shows "j \<le> i"
proof (rule ccontr)
  assume "\<not> j \<le> i"
  then have "i < j" by simp
  with assms(1,4) have "fst (st ! i) < fst (st ! j)"
    by (simp add: sorted_wrt_iff_nth_less)
  with assms(3,5) show False by simp
qed

lemma position_search_found:
  assumes srt: "sorted_wrt (<) (map fst (hs s))" and nf: "faults s = []"
    and ex: "\<exists>j<length (hs s). fst (hs s ! j) \<le> cur_key s"
  shows "\<exists>i c. i < length (hs s) \<and> fst (hs s ! i) \<le> cur_key s
           \<and> (\<forall>j<length (hs s). fst (hs s ! j) \<le> cur_key s \<longrightarrow> j \<le> i)
           \<and> hs_position_search s a
               = (0, s\<lparr>bufs := (bufs s)(a \<mapsto> cur_key s), cur_pos := Some i,
                        cur_key := fst (hs s ! i), calls := c\<rparr>)"
proof -
  let ?k = "cur_key s"
  let ?n = "length (hs s)"
  let ?i0 = "lower_bound ?k (hs s)"
  let ?s1 = "s\<lparr>bufs := (bufs s)(a \<mapsto> ?k)\<rparr>"
  let ?s2 = "logged OpSearchNear ?s1"
  have bs: "wt_buf_set s a ?k = (0, ?s1)" using nf by (simp add: wt_buf_set_def fault_nil)
  have f2: "fault ?s2 = (0, ?s2)" using nf by (simp add: fault_nil)
  have n0: "?n \<noteq> 0" using ex by auto
  have le: "?i0 \<le> ?n" by (rule lower_bound_le)
  show ?thesis
  proof (cases "?i0 < ?n \<and> fst (hs s ! ?i0) = ?k")
    case True
    have "hs_position_search s a = (0, cursor_place ?i0 ?s2)"
      using True n0 by (auto simp: hs_position_search_def bs cursor_search_near_def f2 Let_def)
    moreover have "\<forall>j<?n. fst (hs s ! j) \<le> ?k \<longrightarrow> j \<le> ?i0"
      using exact_is_greatest[OF srt] True by blast
    ultimately show ?thesis
      using True
      by (intro exI[of _ ?i0] exI[of _ "calls ?s2"]) (simp add: cursor_place_def logged_def)
  next
    case False
    have above: "\<forall>j. ?i0 \<le> j \<and> j < ?n \<longrightarrow> ?k < fst (hs s ! j)"
      using lower_bound_strictly_above[OF srt False] by blast
    from ex obtain j0 where j0: "j0 < ?n" "fst (hs s ! j0) \<le> ?k" by blast
    with above have j0i: "j0 < ?i0" by (meson not_le)
    have below: "\<forall>j<?n. fst (hs s ! j) \<le> ?k \<longrightarrow> j < ?i0"
      using above by (meson not_le)
    show ?thesis
    proof (cases "near_landing s")
      case LandBefore
      have "hs_position_search s a = (0, cursor_place (?i0 - 1) ?s2)"
        using False n0 j0i LandBefore
        by (auto simp: hs_position_search_def bs cursor_search_near_def f2 Let_def)
      moreover have "fst (hs s ! (?i0 - 1)) \<le> ?k"
        using lower_bound_below[of "?i0 - 1" ?k "hs s"] j0i by simp
      moreover have "\<forall>j<?n. fst (hs s ! j) \<le> ?k \<longrightarrow> j \<le> ?i0 - 1"
        using below by fastforce
      moreover have "?i0 - 1 < ?n" using le j0i by simp
      ultimately show ?thesis
        by (intro exI[of _ "?i0 - 1"] exI[of _ "calls ?s2"]) (simp add: cursor_place_def logged_def)
    next
      case (LandAfter d)
      show ?thesis
      proof (cases "?i0 < ?n")
        case True
        let ?l = "min (?i0 + d) (?n - 1)"
        let ?s3 = "cursor_place ?l ?s2"
        have l: "?i0 \<le> ?l" "?l < ?n" using True by auto
        have sn: "hs_position_search s a = hs_position_prev_loop ?s3 a"
          using False n0 True LandAfter
          by (auto simp: hs_position_search_def bs cursor_search_near_def f2 Let_def)
        have k3: "item_data ?s3 a = ?k" by (simp add: item_data_def cursor_place_def logged_def)
        have f3: "faults ?s3 = []" using nf by (simp add: cursor_place_def)
        have p3: "cur_pos ?s3 = Some ?l" by (simp add: cursor_place_def)
        have h3: "hs ?s3 = hs s" by (simp add: cursor_place_def)
        have a3: "\<forall>j. ?l \<le> j \<and> j < length (hs ?s3) \<longrightarrow> item_data ?s3 a < fst (hs ?s3 ! j)"
          unfolding k3 h3
        proof (intro allI impI)
          fix j assume "?l \<le> j \<and> j < ?n"
          with l(1) have "?i0 \<le> j \<and> j < ?n" using order_trans by blast
          with above show "?k < fst (hs s ! j)" by blast
        qed
        have e3: "\<exists>j<?l. fst (hs ?s3 ! j) \<le> item_data ?s3 a"
          unfolding k3 h3
        proof (intro exI[of _ j0] conjI)
          show "j0 < ?l" using j0i l(1) by (rule less_le_trans)
          show "fst (hs s ! j0) \<le> ?k" by (rule j0(2))
        qed
        from prev_loop_found[OF f3 p3 a3 e3]
        obtain i c where ic: "i < ?l" "fst (hs s ! i) \<le> ?k"
          "\<forall>j<?n. fst (hs s ! j) \<le> ?k \<longrightarrow> j \<le> i"
          "hs_position_prev_loop ?s3 a
             = (0, ?s3\<lparr>cur_pos := Some i, cur_key := fst (hs s ! i), calls := c\<rparr>)"
          unfolding k3 h3 by blast
        have "i < ?n" using ic(1) l(2) by (rule less_trans)
        then show ?thesis
          using ic unfolding sn
          by (intro exI[of _ i] exI[of _ c]) (simp add: cursor_place_def logged_def)
      next
        case nlt: False
        then have i0n: "?i0 = ?n" using le by simp
        have "hs_position_search s a = (0, cursor_place (?n - 1) ?s2)"
          using False n0 nlt LandAfter
          by (auto simp: hs_position_search_def bs cursor_search_near_def f2 Let_def)
        moreover have "fst (hs s ! (?n - 1)) \<le> ?k"
          using lower_bound_below[of "?n - 1" ?k "hs s"] i0n n0 by simp
        moreover have "\<forall>j<?n. fst (hs s ! j) \<le> ?k \<longrightarrow> j \<le> ?n - 1"
          by auto
        ultimately show ?thesis
          using n0
          by (intro exI[of _ "?n - 1"] exI[of _ "calls ?s2"]) (simp add: cursor_place_def logged_def)
      qed
    qed
  qed
qed


lemma position_search_none:
  assumes nf: "faults s = []"
    and none: "\<forall>j<length (hs s). cur_key s < fst (hs s ! j)"
  shows "\<exists>c q. hs_position_search s a
           = (WT_NOTFOUND, s\<lparr>bufs := (bufs s)(a \<mapsto> cur_key s), cur_pos := None,
                               cur_key := q, calls := c\<rparr>)"
proof -
  let ?k = "cur_key s"
  let ?n = "length (hs s)"
  let ?i0 = "lower_bound ?k (hs s)"
  let ?s1 = "s\<lparr>bufs := (bufs s)(a \<mapsto> ?k)\<rparr>"
  let ?s2 = "logged OpSearchNear ?s1"
  have bs: "wt_buf_set s a ?k = (0, ?s1)" using nf by (simp add: wt_buf_set_def fault_nil)
  have f2: "fault ?s2 = (0, ?s2)" using nf by (simp add: fault_nil)
  show ?thesis
  proof (cases "?n = 0")
    case True
    then have "hs_position_search s a = (WT_NOTFOUND, ?s2\<lparr>cur_pos := None\<rparr>)"
      by (simp add: hs_position_search_def bs cursor_search_near_def f2 Let_def WT_NOTFOUND_def)
    then show ?thesis
      by (intro exI[of _ "calls ?s2"] exI[of _ ?k]) (simp add: logged_def)
  next
    case False
    have i0: "?i0 = 0"
    proof (rule ccontr)
      assume "?i0 \<noteq> 0"
      then have "0 < ?i0" by simp
      then have "fst (hs s ! 0) < ?k" by (rule lower_bound_below)
      moreover have "?k < fst (hs s ! 0)" using none False by simp
      ultimately show False by simp
    qed
    have ne: "fst (hs s ! 0) \<noteq> ?k" using none False by fastforce
    obtain l where sn: "hs_position_search s a = hs_position_prev_loop (cursor_place l ?s2) a"
      and l: "l < ?n"
    proof (cases "near_landing s")
      case LandBefore
      have "hs_position_search s a = hs_position_prev_loop (cursor_place 0 ?s2) a"
        using False i0 ne LandBefore
        by (auto simp: hs_position_search_def bs cursor_search_near_def f2 Let_def)
      then show ?thesis using that False by blast
    next
      case (LandAfter d)
      have "hs_position_search s a
          = hs_position_prev_loop (cursor_place (min (0 + d) (?n - 1)) ?s2) a"
        using False i0 ne LandAfter
        by (auto simp: hs_position_search_def bs cursor_search_near_def f2 Let_def)
      moreover have "min (0 + d) (?n - 1) < ?n"
        using False by (simp add: min_less_iff_disj)
      ultimately show ?thesis using that by blast
    qed
    let ?s3 = "cursor_place l ?s2"
    have k3: "item_data ?s3 a = ?k" by (simp add: item_data_def cursor_place_def logged_def)
    have f3: "faults ?s3 = []" using nf by (simp add: cursor_place_def)
    have p3: "cur_pos ?s3 = Some l" by (simp add: cursor_place_def)
    have h3: "hs ?s3 = hs s" by (simp add: cursor_place_def)
    have a3: "\<forall>j<l. item_data ?s3 a < fst (hs ?s3 ! j)"
      unfolding k3 h3 using none l by simp
    from prev_loop_none[OF f3 p3 a3]
    obtain c q where "hs_position_prev_loop ?s3 a
        = (WT_NOTFOUND, ?s3\<lparr>cur_pos := None, cur_key := q, calls := c\<rparr>)"
      by blast
    then show ?thesis
      unfolding sn by (intro exI[of _ c] exI[of _ q]) (simp add: cursor_place_def logged_def)
  qed
qed

lemma some_key_at_or_below:
  "(\<exists>e\<in>set st. fst e \<le> (k::string)) \<longleftrightarrow> (\<exists>j<length st. fst (st ! j) \<le> k)"
  by (metis in_set_conv_nth)

lemma greatest_index_greatest_key:
  fixes st :: "(string \<times> hs_rec) list"
  assumes "sorted_wrt (<) (map fst st)" "i < length st"
    and "\<forall>j<length st. fst (st ! j) \<le> k \<longrightarrow> j \<le> i"
  shows "\<forall>e\<in>set st. fst e \<le> k \<longrightarrow> fst e \<le> fst (st ! i)"
proof (intro ballI impI)
  fix e assume "e \<in> set st" "fst e \<le> k"
  then obtain j where j: "j < length st" "st ! j = e" by (auto simp: in_set_conv_nth)
  with \<open>fst e \<le> k\<close> assms(3) have "j \<le> i" by auto
  then have "fst (st ! j) \<le> fst (st ! i)" using assms(1,2) by (intro sorted_keys_mono)
  then show "fst e \<le> fst (st ! i)" using j by simp
qed

lemma wt_scr_alloc_nil:
  "faults s = [] \<Longrightarrow>
     wt_scr_alloc s = (0, next_addr s,
       s\<lparr>bufs := (bufs s)(next_addr s \<mapsto> []), next_addr := Suc (next_addr s)\<rparr>)"
  by (simp add: wt_scr_alloc_def fault_nil)

lemma search_near_before_found:
  assumes srt: "sorted_wrt (<) (map fst (hs s))" and nf: "faults s = []"
    and ex: "\<exists>j<length (hs s). fst (hs s ! j) \<le> cur_key s"
  shows "\<exists>i c. i < length (hs s) \<and> fst (hs s ! i) \<le> cur_key s
           \<and> (\<forall>j<length (hs s). fst (hs s ! j) \<le> cur_key s \<longrightarrow> j \<le> i)
           \<and> wt_hs_cursor_search_near_before s
               = (0, s\<lparr>bufs := (bufs s)(next_addr s := None), next_addr := Suc (next_addr s),
                        cur_pos := Some i, cur_key := fst (hs s ! i), calls := c\<rparr>)"
proof -
  let ?a = "next_addr s"
  let ?s1 = "s\<lparr>isolation := WT_ISO_READ_UNCOMMITTED, bufs := (bufs s)(?a \<mapsto> []),
               next_addr := Suc ?a\<rparr>"
  have al: "wt_scr_alloc (s\<lparr>isolation := WT_ISO_READ_UNCOMMITTED\<rparr>) = (0, ?a, ?s1)"
    using nf by (simp add: wt_scr_alloc_nil)
  have "\<exists>i c. i < length (hs ?s1) \<and> fst (hs ?s1 ! i) \<le> cur_key ?s1
           \<and> (\<forall>j<length (hs ?s1). fst (hs ?s1 ! j) \<le> cur_key ?s1 \<longrightarrow> j \<le> i)
           \<and> hs_position_search ?s1 ?a
               = (0, ?s1\<lparr>bufs := (bufs ?s1)(?a \<mapsto> cur_key ?s1), cur_pos := Some i,
                        cur_key := fst (hs ?s1 ! i), calls := c\<rparr>)"
    using srt nf ex by (intro position_search_found) simp_all
  then obtain i c where ic: "i < length (hs s)" "fst (hs s ! i) \<le> cur_key s"
    "\<forall>j<length (hs s). fst (hs s ! j) \<le> cur_key s \<longrightarrow> j \<le> i"
    "hs_position_search ?s1 ?a
       = (0, ?s1\<lparr>bufs := (bufs ?s1)(?a \<mapsto> cur_key ?s1), cur_pos := Some i,
                cur_key := fst (hs ?s1 ! i), calls := c\<rparr>)"
    by auto
  show ?thesis
    using ic(1-3)
    by (intro exI[of _ i] exI[of _ c])
      (simp add: wt_hs_cursor_search_near_before_def al ic(4) wt_scr_free_def)
qed

lemma search_near_before_none:
  assumes nf: "faults s = []"
    and none: "\<forall>j<length (hs s). cur_key s < fst (hs s ! j)"
  shows "\<exists>c q. wt_hs_cursor_search_near_before s
               = (WT_NOTFOUND, s\<lparr>bufs := (bufs s)(next_addr s := None),
                    next_addr := Suc (next_addr s), cur_pos := None, cur_key := q, calls := c\<rparr>)"
proof -
  let ?a = "next_addr s"
  let ?s1 = "s\<lparr>isolation := WT_ISO_READ_UNCOMMITTED, bufs := (bufs s)(?a \<mapsto> []),
               next_addr := Suc ?a\<rparr>"
  have al: "wt_scr_alloc (s\<lparr>isolation := WT_ISO_READ_UNCOMMITTED\<rparr>) = (0, ?a, ?s1)"
    using nf by (simp add: wt_scr_alloc_nil)
  have "\<exists>c q. hs_position_search ?s1 ?a
           = (WT_NOTFOUND, ?s1\<lparr>bufs := (bufs ?s1)(?a \<mapsto> cur_key ?s1), cur_pos := None,
                               cur_key := q, calls := c\<rparr>)"
    using nf none by (intro position_search_none) simp_all
  then obtain c q where cq: "hs_position_search ?s1 ?a
           = (WT_NOTFOUND, ?s1\<lparr>bufs := (bufs ?s1)(?a \<mapsto> cur_key ?s1), cur_pos := None,
                               cur_key := q, calls := c\<rparr>)"
    by auto
  show ?thesis
    by (intro exI[of _ c] exI[of _ q])
      (simp add: wt_hs_cursor_search_near_before_def al cq wt_scr_free_def WT_NOTFOUND_def)
qed

section \<open>The resolver without failures\<close>

text \<open>A stored record whose update type, cut to 8 bits as the resolver does, is a modify.\<close>

definition is_modify :: "string \<times> hs_rec \<Rightarrow> bool" where
  "is_modify e = (ucast (rec_upd_type_full (snd e)) = WT_UPDATE_MODIFY)"

lemma wt_upd_alloc_nil:
  "faults s = [] \<Longrightarrow>
     wt_upd_alloc s = (0, s\<lparr>upd_live := upd_live s + 1, mod_upd := Some (hs_value_data s)\<rparr>)"
  by (simp add: wt_upd_alloc_def fault_nil)

lemma wt_modify_vector_push_nil:
  "faults s = [] \<Longrightarrow> mod_upd s = Some d \<Longrightarrow>
     wt_modify_vector_push s = (0, s\<lparr>modifies := d # modifies s\<rparr>)"
  by (simp add: wt_modify_vector_push_def fault_nil)

lemma cursor_next_nil:
  "faults s = [] \<Longrightarrow> cur_pos s = Some i \<Longrightarrow>
     cursor_next s =
       (if Suc i < length (hs s) then (0, cursor_place (Suc i) (logged OpNext s))
        else (WT_NOTFOUND, (logged OpNext s)\<lparr>cur_pos := None\<rparr>))"
  by (simp add: cursor_next_def fault_nil)

lemma cursor_get_value_nil:
  "faults s = [] \<Longrightarrow> cur_pos s = Some i \<Longrightarrow> i < length (hs s) \<Longrightarrow>
     cursor_get_value s = (0, snd (hs s ! i), logged OpGetValue s)"
  by (simp add: cursor_get_value_def fault_nil)

lemma walk_step:
  assumes nf: "faults s = []" and pos: "cur_pos s = Some i"
    and ty: "upd_type s = WT_UPDATE_MODIFY" and hv: "hs_value s = Some a"
    and nxt: "Suc i < length (hs s)"
  shows "hs_find_upd_walk s = hs_find_upd_walk
      (s\<lparr>calls := calls s @ [(OpNext, isolation s, cur_read_committed s),
                              (OpGetValue, isolation s, cur_read_committed s)],
         cur_pos := Some (Suc i), cur_key := fst (hs s ! Suc i),
         bufs := (bufs s)(a \<mapsto> rec_value (snd (hs s ! Suc i))),
         upd_live := upd_live s + 1, modifies := hs_value_data s # modifies s,
         mod_upd := None, upd_type := ucast (rec_upd_type_full (snd (hs s ! Suc i)))\<rparr>)"
  apply (subst hs_find_upd_walk.simps)
  apply (simp add: ty wt_upd_alloc_nil nf wt_modify_vector_push_nil cursor_next_nil pos nxt
      WT_NOTFOUND_def cursor_get_value_nil cursor_place_def store_hs_value_def hv logged_def)
  apply (rule arg_cong [where f = hs_find_upd_walk])
  apply (cases s)
  apply simp
  done

lemma walk_stop:
  "upd_type s \<noteq> WT_UPDATE_MODIFY \<Longrightarrow> hs_find_upd_walk s = (0, s)"
  by (subst hs_find_upd_walk.simps) simp

lemma walk_last:
  assumes nf: "faults s = []" and pos: "cur_pos s = Some i"
    and ty: "upd_type s = WT_UPDATE_MODIFY" and hv: "hs_value s = Some a"
    and nxt: "\<not> Suc i < length (hs s)"
  shows "hs_find_upd_walk s =
      (0, s\<lparr>calls := calls s @ [(OpNext, isolation s, cur_read_committed s)],
             cur_pos := None, upd_live := upd_live s + 1,
             modifies := hs_value_data s # modifies s, mod_upd := None,
             upd_type := WT_UPDATE_STANDARD, orig_hs_value_buf := Some a,
             hs_value := Some (on_disk_buf s)\<rparr>)"
  apply (subst hs_find_upd_walk.simps)
  apply (simp add: ty wt_upd_alloc_nil nf wt_modify_vector_push_nil cursor_next_nil pos nxt
      hv logged_def)
  done

lemma walk_to_base:
  assumes "faults s = []" "cur_pos s = Some (length pre)" "hs s = pre @ t # ms @ b # post"
    and "\<forall>e\<in>set ms. is_modify e" "\<not> is_modify b"
    and "upd_type s = WT_UPDATE_MODIFY" "hs_value s = Some a"
  shows "\<exists>c. hs_find_upd_walk s =
      (0, s\<lparr>calls := c, cur_pos := Some (Suc (length pre) + length ms), cur_key := fst b,
             bufs := (bufs s)(a \<mapsto> rec_value (snd b)),
             upd_live := upd_live s + 1 + int (length ms),
             modifies := rev (map (rec_value \<circ> snd) ms) @ hs_value_data s # modifies s,
             mod_upd := None, upd_type := ucast (rec_upd_type_full (snd b))\<rparr>)"
  using assms
proof (induction ms arbitrary: s pre t)
  case Nil
  have n: "Suc (length pre) < length (hs s)" "hs s ! Suc (length pre) = b"
    using Nil.prems(3) by (simp_all add: nth_append)
  show ?case
    using Nil.prems(5)
    by (subst walk_step[OF Nil.prems(1,2,6,7) n(1)],
        intro exI[of _ "calls s @ [(OpNext, isolation s, cur_read_committed s),
                              (OpGetValue, isolation s, cur_read_committed s)]"])
      (simp add: n(2) walk_stop is_modify_def)
next
  case (Cons m ms)
  have n: "Suc (length pre) < length (hs s)" "hs s ! Suc (length pre) = m"
    using Cons.prems(3) by (simp_all add: nth_append)
  let ?s1 = "s\<lparr>calls := calls s @ [(OpNext, isolation s, cur_read_committed s),
                              (OpGetValue, isolation s, cur_read_committed s)],
         cur_pos := Some (Suc (length pre)), cur_key := fst (hs s ! Suc (length pre)),
         bufs := (bufs s)(a \<mapsto> rec_value (snd (hs s ! Suc (length pre)))),
         upd_live := upd_live s + 1, modifies := hs_value_data s # modifies s,
         mod_upd := None,
         upd_type := ucast (rec_upd_type_full (snd (hs s ! Suc (length pre))))\<rparr>"
  have m: "is_modify m" using Cons.prems(4) by simp
  have "\<exists>c. hs_find_upd_walk ?s1 =
      (0, ?s1\<lparr>calls := c, cur_pos := Some (Suc (length (pre @ [t])) + length ms),
             cur_key := fst b, bufs := (bufs ?s1)(a \<mapsto> rec_value (snd b)),
             upd_live := upd_live ?s1 + 1 + int (length ms),
             modifies := rev (map (rec_value \<circ> snd) ms) @ hs_value_data ?s1 # modifies ?s1,
             mod_upd := None, upd_type := ucast (rec_upd_type_full (snd b))\<rparr>)"
    using Cons.prems m n
    by (intro Cons.IH) (simp_all add: is_modify_def)
  then obtain c where c: "hs_find_upd_walk ?s1 =
      (0, ?s1\<lparr>calls := c, cur_pos := Some (Suc (length (pre @ [t])) + length ms),
             cur_key := fst b, bufs := (bufs ?s1)(a \<mapsto> rec_value (snd b)),
             upd_live := upd_live ?s1 + 1 + int (length ms),
             modifies := rev (map (rec_value \<circ> snd) ms) @ hs_value_data ?s1 # modifies ?s1,
             mod_upd := None, upd_type := ucast (rec_upd_type_full (snd b))\<rparr>)"
    by blast
  have hv1: "hs_value_data ?s1 = rec_value (snd m)"
    using Cons.prems(7) n(2) by (simp add: hs_value_data_def item_data_def)
  show ?case
    by (subst walk_step[OF Cons.prems(1,2,6,7) n(1)], subst c, rule exI[of _ c])
      (simp add: n(2) hs_value_data_def item_data_def Cons.prems(7))
qed

lemma walk_to_end:
  assumes "faults s = []" "cur_pos s = Some (length pre)" "hs s = pre @ t # ms"
    and "\<forall>e\<in>set ms. is_modify e"
    and "upd_type s = WT_UPDATE_MODIFY" "hs_value s = Some a"
  shows "\<exists>c q B. (\<forall>x. x \<noteq> a \<longrightarrow> B x = bufs s x) \<and> hs_find_upd_walk s =
      (0, s\<lparr>calls := c, cur_pos := None, cur_key := q, bufs := B,
             upd_live := upd_live s + 1 + int (length ms),
             modifies := rev (map (rec_value \<circ> snd) ms) @ hs_value_data s # modifies s,
             mod_upd := None, upd_type := WT_UPDATE_STANDARD, orig_hs_value_buf := Some a,
             hs_value := Some (on_disk_buf s)\<rparr>)"
  using assms
proof (induction ms arbitrary: s pre t)
  case Nil
  have n: "\<not> Suc (length pre) < length (hs s)" using Nil.prems(3) by simp
  show ?case
    apply (subst walk_last[OF Nil.prems(1,2,5,6) n])
    apply (intro exI[of _ "calls s @ [(OpNext, isolation s, cur_read_committed s)]"]
        exI[of _ "cur_key s"] exI[of _ "bufs s"])
    apply (cases s)
    apply simp
    done
next
  case (Cons m ms)
  have n: "Suc (length pre) < length (hs s)" "hs s ! Suc (length pre) = m"
    using Cons.prems(3) by (simp_all add: nth_append)
  let ?s1 = "s\<lparr>calls := calls s @ [(OpNext, isolation s, cur_read_committed s),
                              (OpGetValue, isolation s, cur_read_committed s)],
         cur_pos := Some (Suc (length pre)), cur_key := fst (hs s ! Suc (length pre)),
         bufs := (bufs s)(a \<mapsto> rec_value (snd (hs s ! Suc (length pre)))),
         upd_live := upd_live s + 1, modifies := hs_value_data s # modifies s,
         mod_upd := None,
         upd_type := ucast (rec_upd_type_full (snd (hs s ! Suc (length pre))))\<rparr>"
  have m: "is_modify m" using Cons.prems(4) by simp
  have "\<exists>c q B. (\<forall>x. x \<noteq> a \<longrightarrow> B x = bufs ?s1 x) \<and> hs_find_upd_walk ?s1 =
      (0, ?s1\<lparr>calls := c, cur_pos := None, cur_key := q, bufs := B,
             upd_live := upd_live ?s1 + 1 + int (length ms),
             modifies := rev (map (rec_value \<circ> snd) ms) @ hs_value_data ?s1 # modifies ?s1,
             mod_upd := None, upd_type := WT_UPDATE_STANDARD, orig_hs_value_buf := Some a,
             hs_value := Some (on_disk_buf ?s1)\<rparr>)"
    using Cons.prems m n
    by (intro Cons.IH[where pre = "pre @ [t]" and t = m]) (simp_all add: is_modify_def)
  then obtain c q B where B: "\<forall>x. x \<noteq> a \<longrightarrow> B x = bufs ?s1 x"
    and c: "hs_find_upd_walk ?s1 =
      (0, ?s1\<lparr>calls := c, cur_pos := None, cur_key := q, bufs := B,
             upd_live := upd_live ?s1 + 1 + int (length ms),
             modifies := rev (map (rec_value \<circ> snd) ms) @ hs_value_data ?s1 # modifies ?s1,
             mod_upd := None, upd_type := WT_UPDATE_STANDARD, orig_hs_value_buf := Some a,
             hs_value := Some (on_disk_buf ?s1)\<rparr>)"
    by blast
  have B': "\<forall>x. x \<noteq> a \<longrightarrow> B x = bufs s x" using B by simp
  show ?case
    apply (subst walk_step[OF Cons.prems(1,2,5,6) n(1)], subst c)
    apply (intro exI[of _ c] exI[of _ q] exI[of _ B] conjI B')
    apply (simp add: n(2) hs_value_data_def item_data_def Cons.prems(6))
    done
qed

lemma squash_nil:
  assumes "faults s = []" "hs_value s = Some b" "bufs s b = Some v" "mod_upd s = None"
  shows "hs_find_upd_squash X s =
      (0, s\<lparr>bufs := (bufs s)(b \<mapsto> foldl (modify_apply_item X (value_format s)) v (modifies s)),
             upd_live := upd_live s - int (length (modifies s)), modifies := []\<rparr>)"
  using assms
proof (induction "modifies s" arbitrary: s v)
  case Nil
  then show ?case
    apply (subst hs_find_upd_squash.simps)
    apply (cases s)
    apply (auto simp: fun_upd_idem)
    done
next
  case (Cons d ds)
  let ?v1 = "modify_apply_item X (value_format s) v d"
  let ?s1 = "s\<lparr>modifies := ds, mod_upd := None, bufs := (bufs s)(b \<mapsto> ?v1),
               upd_live := upd_live s - 1\<rparr>"
  have md: "modifies s = d # ds" using Cons.hyps(2) by simp
  have step: "hs_find_upd_squash X s = hs_find_upd_squash X ?s1"
    apply (subst hs_find_upd_squash.simps)
    apply (simp add: md wt_modify_vector_pop_def wt_modify_apply_item_def fault_nil Cons.prems
        item_data_def wt_free_update_list_def)
    apply (rule arg_cong [where f = "hs_find_upd_squash X"])
    apply (insert Cons.prems)
    apply (cases s)
    apply simp
    done
  have "hs_find_upd_squash X ?s1 =
      (0, ?s1\<lparr>bufs := (bufs ?s1)(b \<mapsto> foldl (modify_apply_item X (value_format ?s1)) ?v1 (modifies ?s1)),
             upd_live := upd_live ?s1 - int (length (modifies ?s1)), modifies := []\<rparr>)"
    using Cons.prems by (intro Cons.hyps(1)) simp_all
  then show ?case
    unfolding step
    apply (simp add: md)
    apply (insert Cons.prems)
    apply (cases s)
    apply simp
    done
qed

lemma drain_nil:
  "mod_upd s = None \<Longrightarrow>
     hs_find_upd_drain s = s\<lparr>upd_live := upd_live s - int (length (modifies s)), modifies := []\<rparr>"
proof (induction "modifies s" arbitrary: s)
  case Nil
  then show ?case
    by (subst hs_find_upd_drain.simps) (cases s, simp)
next
  case (Cons d ds)
  let ?s1 = "s\<lparr>modifies := ds, upd_live := upd_live s - 1\<rparr>"
  have md: "modifies s = d # ds" using Cons.hyps(2) by simp
  have step: "hs_find_upd_drain s = hs_find_upd_drain ?s1"
    apply (subst hs_find_upd_drain.simps)
    apply (simp add: md wt_modify_vector_pop_def wt_free_update_list_def)
    apply (rule arg_cong [where f = hs_find_upd_drain])
    apply (insert Cons.prems)
    apply (cases s)
    apply simp
    done
  have "hs_find_upd_drain ?s1 = ?s1\<lparr>upd_live := upd_live ?s1 - int (length (modifies ?s1)), modifies := []\<rparr>"
    using Cons.prems by (intro Cons.hyps(1)) simp_all
  then show ?case
    unfolding step by (simp add: md)
qed

lemma cursor_close_nil:
  "faults s = [] \<Longrightarrow>
     cursor_close s = (0, s\<lparr>cursors_open := cursors_open s - 1, cur_pos := None\<rparr>)"
  by (simp add: cursor_close_def fault_nil)

lemma wt_curhs_open_nil:
  "faults s = [] \<Longrightarrow>
     wt_curhs_open s = (0, s\<lparr>cursors_open := cursors_open s + 1, cur_pos := None, cur_key := [],
                              cur_read_committed := False, hs_cursor := True\<rparr>)"
  by (simp add: wt_curhs_open_def fault_nil)

lemma wt_buf_set_upd_value_nil:
  "faults s = [] \<Longrightarrow> wt_buf_set_upd_value s = (0, s\<lparr>uv_buf := hs_value_data s\<rparr>)"
  by (simp add: wt_buf_set_upd_value_def fault_nil)

text \<open>The state in which the value is read: the cursor open and positioned on record \<open>i\<close>.\<close>

definition positioned :: "fu_state \<Rightarrow> nat \<Rightarrow> (cursor_op \<times> isolation \<times> bool) list \<Rightarrow> fu_state" where
  "positioned s i c =
     s\<lparr>hs_cursor := True, hs_value := None, orig_hs_value_buf := None, modifies := [],
       mod_upd := None, upd_found := False, cursors_open := cursors_open s + 1,
       cur_read_committed := False, bufs := (bufs s)(next_addr s := None),
       next_addr := Suc (next_addr s), cur_pos := Some i, cur_key := fst (hs s ! i),
       calls := c\<rparr>"

lemma target_is_greatest:
  fixes st :: "(string \<times> hs_rec) list"
  assumes "st = pre @ t # rest" "fst t \<le> K" "\<forall>e\<in>set rest. K < fst e"
    and "i < length st" "fst (st ! i) \<le> K" "\<forall>j<length st. fst (st ! j) \<le> K \<longrightarrow> j \<le> i"
  shows "i = length pre"
proof -
  have "length pre < length st" "st ! length pre = t" using assms(1) by simp_all
  with assms(2,6) have le: "length pre \<le> i" by auto
  have "\<not> length pre < i"
  proof
    assume lt: "length pre < i"
    then have "st ! i = rest ! (i - Suc (length pre))"
      using assms(1) by (simp add: nth_append nth_Cons')
    moreover have "i - Suc (length pre) < length rest" using lt assms(1,4) by auto
    ultimately have "st ! i \<in> set rest" by (metis nth_mem)
    with assms(3,5) show False by fastforce
  qed
  with le show ?thesis by simp
qed

lemma find_upd_positioned:
  assumes srt: "sorted_wrt (<) (map fst (hs s))" and nf: "faults s = []"
    and shape: "hs s = pre @ t # rest"
    and le: "fst t \<le> hs_pack_key X btree_id k
                (if ts = WT_TS_NONE then WT_TS_MAX else ts) UINT64_MAX"
    and gt: "\<forall>e\<in>set rest. hs_pack_key X btree_id k
                (if ts = WT_TS_NONE then WT_TS_MAX else ts) UINT64_MAX < fst e"
  shows "\<exists>c. wt_hs_find_upd X s ts btree_id (Some k) recno =
     hs_find_upd_close
       (hs_find_upd_cleanup (hs_find_upd_value X (positioned s (length pre) c)))"
proof -
  define K where "K = hs_pack_key X btree_id k (if ts = WT_TS_NONE then WT_TS_MAX else ts) UINT64_MAX"
  let ?s0 = "s\<lparr>hs_cursor := False, hs_value := None, orig_hs_value_buf := None,
                modifies := [], mod_upd := None, upd_found := False\<rparr>"
  define S1 where "S1 = ?s0\<lparr>cursors_open := cursors_open ?s0 + 1, cur_pos := None,
                cur_key := [], cur_read_committed := False, hs_cursor := True\<rparr>"
  define S2 where "S2 = cursor_set_key S1 K"
  have o: "wt_curhs_open ?s0 = (0, S1)"
    unfolding S1_def using nf by (simp add: wt_curhs_open_nil)
  have s2: "hs S2 = hs s" "faults S2 = []" "cur_key S2 = K"
    using nf by (simp_all add: S2_def S1_def cursor_set_key_def)
  have srt2: "sorted_wrt (<) (map fst (hs S2))" using srt s2(1) by simp
  have "length pre < length (hs s)" "hs s ! length pre = t" using shape by simp_all
  then have ex: "\<exists>j<length (hs S2). fst (hs S2 ! j) \<le> cur_key S2"
    unfolding s2 using le by (intro exI[of _ "length pre"]) (simp add: K_def)
  from search_near_before_found[OF srt2 s2(2) ex]
  obtain i c where ic: "i < length (hs s)" "fst (hs s ! i) \<le> K"
    "\<forall>j<length (hs s). fst (hs s ! j) \<le> K \<longrightarrow> j \<le> i"
    "wt_hs_cursor_search_near_before S2
       = (0, S2\<lparr>bufs := (bufs S2)(next_addr S2 := None), next_addr := Suc (next_addr S2),
                cur_pos := Some i, cur_key := fst (hs S2 ! i), calls := c\<rparr>)"
    unfolding s2 by blast
  have i: "i = length pre"
    using shape le gt ic(1-3) unfolding K_def by (rule target_is_greatest)
  have st: "S2\<lparr>bufs := (bufs S2)(next_addr S2 := None), next_addr := Suc (next_addr S2),
                cur_pos := Some i, cur_key := fst (hs S2 ! i), calls := c\<rparr>
      = positioned s (length pre) c"
    unfolding i positioned_def S2_def S1_def cursor_set_key_def by (cases s) simp
  have "hs_find_upd_search X ?s0 ts btree_id k = hs_find_upd_value X (positioned s (length pre) c)"
    unfolding hs_find_upd_search_def o Let_def K_def[symmetric] S2_def[symmetric]
    by (simp add: S2_def[symmetric] ic(4) st WT_NOTFOUND_def split del: if_split)
  then show ?thesis
    by (intro exI[of _ c]) (simp add: wt_hs_find_upd_def Let_def)
qed

text \<open>The state after the value of record \<open>i\<close> was read into a fresh scratch buffer.\<close>

definition value_read :: "fu_state \<Rightarrow> nat \<Rightarrow> fu_state" where
  "value_read P i =
     P\<lparr>bufs := (bufs P)(next_addr P \<mapsto> rec_value (snd (hs P ! i))),
       next_addr := Suc (next_addr P), hs_value := Some (next_addr P),
       calls := calls P @ [(OpGetValue, isolation P, cur_read_committed P)],
       durable_timestamp := rec_durable_ts (snd (hs P ! i)),
       upd_type := ucast (rec_upd_type_full (snd (hs P ! i))), upd_found := True\<rparr>"

lemma value_stage0:
  assumes "faults P = []" "cur_pos P = Some i" "i < length (hs P)"
  shows "hs_find_upd_value X P =
     (if uv_skip_buf P then (0, hs_find_upd_report (value_read P i))
      else (case hs_find_upd_build X (value_read P i) of
              (r3, s4) \<Rightarrow> if r3 \<noteq> 0 then (r3, s4) else hs_find_upd_copy s4))"
  using assms
  apply (cases "uv_skip_buf P")
   apply (cases P, simp add: hs_find_upd_value_def wt_scr_alloc_nil cursor_get_value_nil
      value_read_def Let_def store_hs_value_def logged_def)+
  done

lemma value_stage:
  assumes "faults P = []" "cur_pos P = Some i" "i < length (hs P)"
  shows "hs_find_upd_value X P =
     (if uv_skip_buf P then (0, hs_find_upd_report (value_read P i))
      else (case (if is_modify (hs P ! i) then
                    (case hs_find_upd_walk ((value_read P i)\<lparr>cur_read_committed := True\<rparr>) of
                       (r3, s4) \<Rightarrow> if r3 \<noteq> 0 then (r3, s4) else hs_find_upd_squash X s4)
                  else (0, value_read P i)) of
              (r5, s5) \<Rightarrow>
                if r5 \<noteq> 0 then (r5, s5)
                else (case wt_buf_set_upd_value s5 of (r6, s6) \<Rightarrow>
                        if r6 \<noteq> 0 then (r6, s6) else (0, hs_find_upd_report s6))))"
proof -
  have ty: "upd_type (value_read P i) = WT_UPDATE_MODIFY \<longleftrightarrow> is_modify (hs P ! i)"
    by (simp add: value_read_def is_modify_def)
  have cp: "hs_find_upd_copy = (\<lambda>s5. case wt_buf_set_upd_value s5 of (r6, s6) \<Rightarrow>
                        if r6 \<noteq> 0 then (r6, s6) else (0, hs_find_upd_report s6))"
    by (rule ext) (simp add: hs_find_upd_copy_def)
  show ?thesis
    unfolding value_stage0[OF assms] hs_find_upd_build_def ty cp by (rule refl)
qed

lemma value_read_simps [simp]:
  "faults (value_read P i) = faults P" "hs (value_read P i) = hs P"
  "cur_pos (value_read P i) = cur_pos P" "hs_value (value_read P i) = Some (next_addr P)"
  "mod_upd (value_read P i) = mod_upd P" "modifies (value_read P i) = modifies P"
  "orig_hs_value_buf (value_read P i) = orig_hs_value_buf P" "upd_found (value_read P i)"
  "hs_cursor (value_read P i) = hs_cursor P" "uv_buf (value_read P i) = uv_buf P"
  "durable_timestamp (value_read P i) = rec_durable_ts (snd (hs P ! i))"
  "upd_type (value_read P i) = ucast (rec_upd_type_full (snd (hs P ! i)))"
  "upd_live (value_read P i) = upd_live P" "cursors_open (value_read P i) = cursors_open P"
  "on_disk_buf (value_read P i) = on_disk_buf P" "value_format (value_read P i) = value_format P"
  "bufs (value_read P i) = (bufs P)(next_addr P \<mapsto> rec_value (snd (hs P ! i)))"
  "next_addr (value_read P i) = Suc (next_addr P)"
  by (simp_all add: value_read_def)

lemma positioned_simps [simp]:
  "faults (positioned s i c) = faults s" "hs (positioned s i c) = hs s"
  "cur_pos (positioned s i c) = Some i" "hs_value (positioned s i c) = None"
  "mod_upd (positioned s i c) = None" "modifies (positioned s i c) = []"
  "orig_hs_value_buf (positioned s i c) = None" "hs_cursor (positioned s i c)"
  "uv_buf (positioned s i c) = uv_buf s" "uv_skip_buf (positioned s i c) = uv_skip_buf s"
  "upd_live (positioned s i c) = upd_live s" "cursors_open (positioned s i c) = cursors_open s + 1"
  "on_disk_buf (positioned s i c) = on_disk_buf s" "value_format (positioned s i c) = value_format s"
  "bufs (positioned s i c) = (bufs s)(next_addr s := None)"
  "next_addr (positioned s i c) = Suc (next_addr s)"
  by (simp_all add: positioned_def)

text \<open>Cleanup and close after a successful read, seen through the fields the caller reads.\<close>

lemma cleanup_close_found:
  assumes "faults Q = []" "mod_upd Q = None" "modifies Q = []" "upd_found Q" "hs_cursor Q"
  shows "\<exists>s'. hs_find_upd_close (hs_find_upd_cleanup (0, Q)) = (0, s')
      \<and> uv_buf s' = uv_buf Q \<and> uv_type s' = uv_type Q
      \<and> uv_durable_start_ts s' = uv_durable_start_ts Q \<and> uv_start_txn s' = uv_start_txn Q
      \<and> upd_live s' = upd_live Q \<and> cursors_open s' = cursors_open Q - 1
      \<and> bufs s' = (case orig_hs_value_buf Q of
                     Some a \<Rightarrow> (bufs Q)(a := None)
                   | None \<Rightarrow> (case hs_value Q of Some a \<Rightarrow> (bufs Q)(a := None) | None \<Rightarrow> bufs Q))"
  using assms
  by (auto simp: hs_find_upd_close_def hs_find_upd_cleanup_def Let_def wt_scr_free_def
      wt_free_update_list_def drain_nil cursor_close_nil WT_TRET_def split: option.splits)

lemma find_upd_recno_key:
  "faults s = [] \<Longrightarrow>
     wt_hs_find_upd X s ts btree_id None recno
       = wt_hs_find_upd X s ts btree_id (Some (vpack_uint X recno)) recno"
  by (simp add: wt_hs_find_upd_def Let_def fault_nil)

lemma find_upd_skip_buf_result:
  assumes srt: "sorted_wrt (<) (map fst (hs s))" and nf: "faults s = []"
    and shape: "hs s = pre @ t # rest"
    and le: "fst t \<le> hs_pack_key X btree_id k
                (if ts = WT_TS_NONE then WT_TS_MAX else ts) UINT64_MAX"
    and gt: "\<forall>e\<in>set rest. hs_pack_key X btree_id k
                (if ts = WT_TS_NONE then WT_TS_MAX else ts) UINT64_MAX < fst e"
    and skip: "uv_skip_buf s"
  shows "\<exists>s'. wt_hs_find_upd X s ts btree_id (Some k) recno = (0, s')
      \<and> uv_buf s' = uv_buf s
      \<and> uv_type s' = ucast (rec_upd_type_full (snd t))
      \<and> uv_durable_start_ts s' = rec_durable_ts (snd t)
      \<and> uv_start_txn s' = WT_TXN_NONE
      \<and> upd_live s' = upd_live s"
proof -
  from find_upd_positioned[OF srt nf shape le gt]
  obtain c where red: "wt_hs_find_upd X s ts btree_id (Some k) recno =
     hs_find_upd_close (hs_find_upd_cleanup (hs_find_upd_value X (positioned s (length pre) c)))"
    by blast
  define P where "P = positioned s (length pre) c"
  have t: "length pre < length (hs s)" "hs s ! length pre = t" using shape by simp_all
  have P: "faults P = []" "cur_pos P = Some (length pre)" "hs P = hs s" "uv_skip_buf P"
    using nf skip by (simp_all add: P_def)
  define F where "F = hs_find_upd_report (value_read P (length pre))"
  have v: "hs_find_upd_value X P = (0, F)"
    unfolding value_stage[OF P(1,2), unfolded P(3), OF t(1)] using P(4) by (simp add: F_def)
  have F: "faults F = []" "mod_upd F = None" "modifies F = []" "upd_found F" "hs_cursor F"
    "uv_buf F = uv_buf s"
    "uv_durable_start_ts F = rec_durable_ts (snd t)"
    "uv_type F = ucast (rec_upd_type_full (snd t))" "uv_start_txn F = WT_TXN_NONE"
    "upd_live F = upd_live s"
    using nf t by (simp_all add: F_def P_def hs_find_upd_report_def)
  from cleanup_close_found[OF F(1-5)]
  obtain s' where s': "hs_find_upd_close (hs_find_upd_cleanup (0, F)) = (0, s')"
    "uv_buf s' = uv_buf F" "uv_type s' = uv_type F"
    "uv_durable_start_ts s' = uv_durable_start_ts F" "uv_start_txn s' = uv_start_txn F"
    "upd_live s' = upd_live F"
    by blast
  show ?thesis
    unfolding red P_def[symmetric] v
    by (intro exI[of _ s'] conjI s'(1)) (simp_all only: s'(2-6) F(6-10))
qed


lemma find_upd_chain_result:
  assumes srt: "sorted_wrt (<) (map fst (hs s))" and nf: "faults s = []"
    and shape: "hs s = pre @ t # ms @ b # post"
    and le: "fst t \<le> hs_pack_key X btree_id k
                (if ts = WT_TS_NONE then WT_TS_MAX else ts) UINT64_MAX"
    and gt: "\<forall>e\<in>set (ms @ b # post). hs_pack_key X btree_id k
                (if ts = WT_TS_NONE then WT_TS_MAX else ts) UINT64_MAX < fst e"
    and noskip: "\<not> uv_skip_buf s"
    and mods: "is_modify t" "\<forall>e\<in>set ms. is_modify e" "\<not> is_modify b"
  shows "\<exists>s'. wt_hs_find_upd X s ts btree_id (Some k) recno = (0, s')
      \<and> uv_buf s' = foldr (\<lambda>d v. modify_apply_item X (value_format s) v d)
                       (map (rec_value \<circ> snd) (t # ms)) (rec_value (snd b))
      \<and> uv_type s' = ucast (rec_upd_type_full (snd b))
      \<and> uv_durable_start_ts s' = rec_durable_ts (snd t)
      \<and> uv_start_txn s' = WT_TXN_NONE"
proof -
  from find_upd_positioned[OF srt nf shape le gt]
  obtain c where red: "wt_hs_find_upd X s ts btree_id (Some k) recno =
     hs_find_upd_close (hs_find_upd_cleanup (hs_find_upd_value X (positioned s (length pre) c)))"
    by blast
  define P where "P = positioned s (length pre) c"
  define R where "R = (value_read P (length pre))\<lparr>cur_read_committed := True\<rparr>"
  let ?a = "Suc (next_addr s)"
  have t: "length pre < length (hs s)" "hs s ! length pre = t" using shape by simp_all
  have P: "faults P = []" "cur_pos P = Some (length pre)" "hs P = hs s" "\<not> uv_skip_buf P"
    "value_format P = value_format s"
    using nf noskip by (simp_all add: P_def)
  have R: "faults R = []" "cur_pos R = Some (length pre)" "hs R = pre @ t # ms @ b # post"
    "upd_type R = WT_UPDATE_MODIFY" "hs_value R = Some ?a" "modifies R = []"
    "hs_value_data R = rec_value (snd t)" "value_format R = value_format s"
    using nf shape mods(1) t
    by (simp_all add: R_def P_def is_modify_def hs_value_data_def item_data_def)
  from walk_to_base[OF R(1,2,3) mods(2,3) R(4,5)]
  obtain c' where w: "hs_find_upd_walk R =
      (0, R\<lparr>calls := c', cur_pos := Some (Suc (length pre) + length ms), cur_key := fst b,
             bufs := (bufs R)(?a \<mapsto> rec_value (snd b)),
             upd_live := upd_live R + 1 + int (length ms),
             modifies := rev (map (rec_value \<circ> snd) ms) @ hs_value_data R # modifies R,
             mod_upd := None, upd_type := ucast (rec_upd_type_full (snd b))\<rparr>)"
    by blast
  define W where "W = R\<lparr>calls := c', cur_pos := Some (Suc (length pre) + length ms),
             cur_key := fst b, bufs := (bufs R)(?a \<mapsto> rec_value (snd b)),
             upd_live := upd_live R + 1 + int (length ms),
             modifies := rev (map (rec_value \<circ> snd) ms) @ hs_value_data R # modifies R,
             mod_upd := None, upd_type := ucast (rec_upd_type_full (snd b))\<rparr>"
  have W: "faults W = []" "hs_value W = Some ?a" "bufs W ?a = Some (rec_value (snd b))"
    "mod_upd W = None" "value_format W = value_format s"
    "modifies W = rev (map (rec_value \<circ> snd) ms) @ [rec_value (snd t)]"
    using R by (simp_all add: W_def)
  define Q where "Q = W\<lparr>bufs := (bufs W)(?a \<mapsto> foldl (modify_apply_item X (value_format W))
                 (rec_value (snd b)) (modifies W)),
             upd_live := upd_live W - int (length (modifies W)), modifies := []\<rparr>"
  have sq: "hs_find_upd_squash X W = (0, Q)"
    unfolding Q_def using W(1-4) by (rule squash_nil)
  have fold: "foldl (modify_apply_item X (value_format s)) (rec_value (snd b))
        (rev (map (rec_value \<circ> snd) ms) @ [rec_value (snd t)])
      = foldr (\<lambda>d v. modify_apply_item X (value_format s) v d)
          (map (rec_value \<circ> snd) (t # ms)) (rec_value (snd b))"
    by (simp add: foldl_conv_foldr)
  have Q: "faults Q = []" "mod_upd Q = None" "modifies Q = []" "upd_found Q" "hs_cursor Q"
    "uv_durable_start_ts (hs_find_upd_report Q) = rec_durable_ts (snd t)"
    "uv_type (hs_find_upd_report Q) = ucast (rec_upd_type_full (snd b))"
    "uv_start_txn (hs_find_upd_report Q) = WT_TXN_NONE"
    using nf t by (simp_all add: Q_def W_def R_def P_def hs_find_upd_report_def)
  have hvQ: "hs_value_data Q = foldr (\<lambda>d v. modify_apply_item X (value_format s) v d)
          (map (rec_value \<circ> snd) (t # ms)) (rec_value (snd b))"
  proof -
    have "hs_value_data Q = foldl (modify_apply_item X (value_format W)) (rec_value (snd b))
        (modifies W)"
      by (simp add: Q_def hs_value_data_def item_data_def W(2))
    then show ?thesis unfolding W(5,6) by (simp only: fold)
  qed
  define F where "F = hs_find_upd_report (Q\<lparr>uv_buf := hs_value_data Q\<rparr>)"
  have v: "hs_find_upd_value X P = (0, F)"
    unfolding value_stage[OF P(1,2), unfolded P(3), OF t(1)] R_def[symmetric] W_def[symmetric] w
    using P(4) mods(1) t(2)
    by (simp add: W_def[symmetric] w sq wt_buf_set_upd_value_nil Q(1) F_def)
  have F: "faults F = []" "mod_upd F = None" "modifies F = []" "upd_found F" "hs_cursor F"
    "uv_buf F = hs_value_data Q"
    "uv_durable_start_ts F = rec_durable_ts (snd t)"
    "uv_type F = ucast (rec_upd_type_full (snd b))" "uv_start_txn F = WT_TXN_NONE"
    using Q by (simp_all add: F_def hs_find_upd_report_def)
  from cleanup_close_found[OF F(1-5)]
  obtain s' where s': "hs_find_upd_close (hs_find_upd_cleanup (0, F)) = (0, s')"
    "uv_buf s' = uv_buf F" "uv_type s' = uv_type F"
    "uv_durable_start_ts s' = uv_durable_start_ts F" "uv_start_txn s' = uv_start_txn F"
    by blast
  show ?thesis
    unfolding red P_def[symmetric] v
    by (intro exI[of _ s'] conjI s'(1)) (simp_all only: s'(2-5) F(6-9) hvQ)
qed

lemma find_upd_none_result:
  assumes nf: "faults s = []"
    and none: "\<forall>e\<in>set (hs s). hs_pack_key X btree_id k
                (if ts = WT_TS_NONE then WT_TS_MAX else ts) UINT64_MAX < fst e"
  shows "\<exists>s'. wt_hs_find_upd X s ts btree_id (Some k) recno = (0, s')
      \<and> uv_type s' = WT_UPDATE_INVALID \<and> uv_buf s' = uv_buf s
      \<and> upd_live s' = upd_live s \<and> cursors_open s' = cursors_open s"
proof -
  define K where "K = hs_pack_key X btree_id k (if ts = WT_TS_NONE then WT_TS_MAX else ts) UINT64_MAX"
  let ?s0 = "s\<lparr>hs_cursor := False, hs_value := None, orig_hs_value_buf := None,
                modifies := [], mod_upd := None, upd_found := False\<rparr>"
  define S1 where "S1 = ?s0\<lparr>cursors_open := cursors_open ?s0 + 1, cur_pos := None,
                cur_key := [], cur_read_committed := False, hs_cursor := True\<rparr>"
  define S2 where "S2 = cursor_set_key S1 K"
  have o: "wt_curhs_open ?s0 = (0, S1)"
    unfolding S1_def using nf by (simp add: wt_curhs_open_nil)
  have s2: "hs S2 = hs s" "faults S2 = []" "cur_key S2 = K"
    using nf by (simp_all add: S2_def S1_def cursor_set_key_def)
  have none2: "\<forall>j<length (hs S2). cur_key S2 < fst (hs S2 ! j)"
    unfolding s2 using none by (simp add: K_def)
  from search_near_before_none[OF s2(2) none2]
  obtain c q where cq: "wt_hs_cursor_search_near_before S2
       = (WT_NOTFOUND, S2\<lparr>bufs := (bufs S2)(next_addr S2 := None),
            next_addr := Suc (next_addr S2), cur_pos := None, cur_key := q, calls := c\<rparr>)"
    by blast
  define S3 where "S3 = S2\<lparr>bufs := (bufs S2)(next_addr S2 := None),
            next_addr := Suc (next_addr S2), cur_pos := None, cur_key := q, calls := c\<rparr>"
  have se: "hs_find_upd_search X ?s0 ts btree_id k = (0, S3)"
    unfolding hs_find_upd_search_def o Let_def K_def[symmetric] S2_def[symmetric]
    by (simp add: S2_def[symmetric] cq S3_def split del: if_split)
  have S3: "faults S3 = []" "mod_upd S3 = None" "modifies S3 = []" "\<not> upd_found S3" "hs_cursor S3"
    "orig_hs_value_buf S3 = None" "hs_value S3 = None" "uv_buf S3 = uv_buf s"
    "upd_live S3 = upd_live s" "cursors_open S3 = cursors_open s + 1"
    using nf by (simp_all add: S3_def S2_def S1_def cursor_set_key_def)
  have "\<exists>s'. hs_find_upd_close (hs_find_upd_cleanup (0, S3)) = (0, s')
      \<and> uv_type s' = WT_UPDATE_INVALID \<and> uv_buf s' = uv_buf S3
      \<and> upd_live s' = upd_live S3 \<and> cursors_open s' = cursors_open S3 - 1"
    using S3(1-7)
    by (auto simp: hs_find_upd_close_def hs_find_upd_cleanup_def Let_def wt_scr_free_def
        wt_free_update_list_def drain_nil cursor_close_nil WT_TRET_def split: option.splits)
  then show ?thesis
    unfolding wt_hs_find_upd_def Let_def using se S3(8-10) by simp
qed

text \<open>
  A stored record of table \<open>btree_id\<close> and record key \<open>k\<close>, given by its start timestamp,
  its counter and its value: the raw key packs the four fields.
\<close>

definition hs_entry ::
  "collab \<Rightarrow> 32 word \<Rightarrow> string \<Rightarrow> 64 word \<times> 64 word \<times> hs_rec \<Rightarrow> string \<times> hs_rec" where
  "hs_entry X btree_id k e = (hs_pack_key X btree_id k (fst e) (fst (snd e)), snd (snd e))"

section \<open>The log of cursor calls, on every path\<close>

text \<open>
  \<open>steps ops s s'\<close>: from \<open>s\<close> to \<open>s'\<close> the isolation level and the cursor flag are
  unchanged, and the cursor calls logged are operations of \<open>ops\<close>, each under that level
  and flag.
\<close>

definition steps :: "cursor_op set \<Rightarrow> 'a env_scheme \<Rightarrow> 'a env_scheme \<Rightarrow> bool" where
  "steps ops s s' \<longleftrightarrow>
     isolation s' = isolation s \<and> cur_read_committed s' = cur_read_committed s \<and>
     (\<exists>new. calls s' = calls s @ new \<and>
        (\<forall>e\<in>set new. fst e \<in> ops \<and> fst (snd e) = isolation s \<and>
                      snd (snd e) = cur_read_committed s))"

lemma steps_refl [simp]: "steps ops s s"
  by (simp add: steps_def)

lemma steps_trans: "steps ops s s1 \<Longrightarrow> steps ops s1 s2 \<Longrightarrow> steps ops s s2"
  unfolding steps_def by (elim conjE exE) (rule conjI, simp, rule conjI, simp, force)

lemma steps_same:
  "isolation s' = isolation s \<Longrightarrow> cur_read_committed s' = cur_read_committed s \<Longrightarrow>
   calls s' = calls s \<Longrightarrow> steps ops s s'"
  by (simp add: steps_def)

lemma steps_from_same:
  "isolation s1 = isolation s \<Longrightarrow> cur_read_committed s1 = cur_read_committed s \<Longrightarrow>
   calls s1 = calls s \<Longrightarrow> steps ops s1 s' \<Longrightarrow> steps ops s s'"
  by (simp add: steps_def)

lemma steps_to_same:
  "steps ops s s1 \<Longrightarrow> isolation s' = isolation s1 \<Longrightarrow>
   cur_read_committed s' = cur_read_committed s1 \<Longrightarrow> calls s' = calls s1 \<Longrightarrow> steps ops s s'"
  by (simp add: steps_def)

lemma fault_steps: "fault s = (r, s') \<Longrightarrow> steps ops s s'"
  by (auto simp: fault_def steps_def split: list.splits)

lemma logged_fault_steps:
  "fault (logged op s) = (r, s') \<Longrightarrow> op \<in> ops \<Longrightarrow>
     isolation s' = isolation s \<and> cur_read_committed s' = cur_read_committed s \<and>
     calls s' = calls s @ [(op, isolation s, cur_read_committed s)]"
  by (auto simp: fault_def logged_def split: list.splits)

lemma wt_scr_alloc_steps: "wt_scr_alloc s = (r, a, s') \<Longrightarrow> steps ops s s'"
  by (auto simp: wt_scr_alloc_def split: prod.splits if_splits dest!: fault_steps[where ops = ops]
      elim!: steps_to_same)

lemma wt_scr_free_steps [simp]: "steps ops s (wt_scr_free s p)"
  by (simp add: wt_scr_free_def steps_def split: option.splits)

lemma wt_buf_set_steps: "wt_buf_set s a d = (r, s') \<Longrightarrow> steps ops s s'"
  by (auto simp: wt_buf_set_def split: prod.splits if_splits dest!: fault_steps[where ops = ops]
      elim!: steps_to_same)

lemma wt_compare_steps: "wt_compare s x y = (r, c, s') \<Longrightarrow> steps ops s s'"
  by (auto simp: wt_compare_def split: prod.splits if_splits dest!: fault_steps[where ops = ops])

lemma cursor_prev_steps: "cursor_prev s = (r, s') \<Longrightarrow> OpPrev \<in> ops \<Longrightarrow> steps ops s s'"
  by (auto simp: cursor_prev_def cursor_place_def steps_def
      split: prod.splits if_splits option.splits nat.splits
      dest!: logged_fault_steps[where ops = ops])

lemma cursor_next_steps: "cursor_next s = (r, s') \<Longrightarrow> OpNext \<in> ops \<Longrightarrow> steps ops s s'"
  by (auto simp: cursor_next_def cursor_place_def steps_def Let_def
      split: prod.splits if_splits option.splits
      dest!: logged_fault_steps[where ops = ops])

lemma cursor_search_near_steps:
  "cursor_search_near s = (r, x, s') \<Longrightarrow> OpSearchNear \<in> ops \<Longrightarrow> steps ops s s'"
  by (auto simp: cursor_search_near_def cursor_place_def steps_def Let_def
      split: prod.splits if_splits option.splits landing.splits
      dest!: logged_fault_steps[where ops = ops])

lemma cursor_get_value_steps:
  "cursor_get_value s = (r, v, s') \<Longrightarrow> OpGetValue \<in> ops \<Longrightarrow> steps ops s s'"
  by (auto simp: cursor_get_value_def steps_def
      split: prod.splits if_splits option.splits
      dest!: logged_fault_steps[where ops = ops])

lemma prev_loop_steps:
  "hs_position_prev_loop s a = (r, s') \<Longrightarrow> OpPrev \<in> ops \<Longrightarrow> steps ops s s'"
proof (induction s a arbitrary: r s' rule: hs_position_prev_loop.induct)
  case (1 s a)
  obtain r1 s1 where p: "cursor_prev s = (r1, s1)" by (cases "cursor_prev s")
  note st1 = cursor_prev_steps[OF p "1.prems"(2)]
  show ?case
  proof (cases "r1 = 0")
    case False
    then show ?thesis
      using "1.prems"(1) st1 by (subst (asm) hs_position_prev_loop.simps) (simp add: p)
  next
    case True
    obtain r2 c s2 where q: "wt_compare s1 (cur_key s1) (item_data s1 a) = (r2, c, s2)"
      by (cases "wt_compare s1 (cur_key s1) (item_data s1 a)")
    note st2 = steps_trans[OF st1 wt_compare_steps[OF q]]
    show ?thesis
    proof (cases "r2 \<noteq> 0 \<or> c \<le> 0")
      case True
      then show ?thesis
        using "1.prems"(1) st2 \<open>r1 = 0\<close>
        by (subst (asm) hs_position_prev_loop.simps) (auto simp: p q split: if_splits)
    next
      case False
      then have "hs_position_prev_loop s2 a = (r, s')"
        using "1.prems"(1) \<open>r1 = 0\<close>
        by (subst (asm) hs_position_prev_loop.simps) (auto simp: p q)
      from "1.IH"[OF p[symmetric] _ q[symmetric] refl _ _ this "1.prems"(2)] False \<open>r1 = 0\<close>
      have "steps ops s2 s'" by auto
      with st2 show ?thesis by (rule steps_trans)
    qed
  qed
qed

lemma position_search_steps:
  assumes "hs_position_search s a = (r, s')" "{OpSearchNear, OpPrev} \<subseteq> ops"
  shows "steps ops s s'"
proof -
  obtain r1 s1 where b: "wt_buf_set s a (cur_key s) = (r1, s1)" by (cases "wt_buf_set s a (cur_key s)")
  note st1 = wt_buf_set_steps[OF b, of ops]
  obtain r2 x s2 where n: "cursor_search_near s1 = (r2, x, s2)" by (cases "cursor_search_near s1")
  have st2: "steps ops s s2"
    using st1 cursor_search_near_steps[OF n] assms(2) by (auto intro: steps_trans)
  show ?thesis
  proof (cases "r1 = 0 \<and> r2 = 0 \<and> x > 0")
    case True
    then have "hs_position_prev_loop s2 a = (r, s')"
      using assms(1) by (simp add: hs_position_search_def b n)
    from prev_loop_steps[OF this, of ops] assms(2) st2 show ?thesis
      by (auto intro: steps_trans)
  next
    case False
    then show ?thesis
      using assms(1) st1 st2 by (auto simp: hs_position_search_def b n split: if_splits)
  qed
qed

text \<open>\<open>logs E s s'\<close>: the cursor calls logged from \<open>s\<close> to \<open>s'\<close> all satisfy \<open>E\<close>.\<close>

definition logs ::
  "(cursor_op \<times> isolation \<times> bool \<Rightarrow> bool) \<Rightarrow> 'a env_scheme \<Rightarrow> 'a env_scheme \<Rightarrow> bool" where
  "logs E s s' \<longleftrightarrow> (\<exists>new. calls s' = calls s @ new \<and> (\<forall>e\<in>set new. E e))"

lemma logs_refl [simp]: "logs E s s"
  by (simp add: logs_def)

lemma logs_trans: "logs E s s1 \<Longrightarrow> logs E s1 s2 \<Longrightarrow> logs E s s2"
  unfolding logs_def by force

lemma logs_same: "calls s' = calls s \<Longrightarrow> logs E s s'"
  by (simp add: logs_def)

lemma logs_from_same: "calls s1 = calls s \<Longrightarrow> logs E s1 s' \<Longrightarrow> logs E s s'"
  by (simp add: logs_def)

lemma logs_to_same: "logs E s s1 \<Longrightarrow> calls s' = calls s1 \<Longrightarrow> logs E s s'"
  by (simp add: logs_def)

lemma steps_logs:
  assumes "steps ops s s'"
    and "\<And>e. fst e \<in> ops \<Longrightarrow> fst (snd e) = isolation s \<Longrightarrow>
               snd (snd e) = cur_read_committed s \<Longrightarrow> E e"
  shows "logs E s s'"
  using assms unfolding steps_def logs_def by blast

lemma position_int_steps:
  assumes "hs_cursor_position_int X s btree_id key timestamp usk = (r, s')"
  shows "steps {OpSearchNear, OpPrev} s s'"
proof -
  let ?ops = "{OpSearchNear, OpPrev}"
  obtain r1 a s1 where al:
    "(case usk of None \<Rightarrow> wt_scr_alloc s | Some a \<Rightarrow> (0, a, s)) = (r1, a, s1)"
    by (cases "case usk of None \<Rightarrow> wt_scr_alloc s | Some a \<Rightarrow> (0, a, s)")
  have st1: "steps ?ops s s1"
    using al by (cases usk) (auto dest: wt_scr_alloc_steps[where ops = ?ops])
  let ?s2 = "cursor_set_key s1 (hs_pack_key X btree_id key timestamp UINT64_MAX)"
  have st2: "steps ?ops s ?s2"
    using st1 by (rule steps_to_same) (simp_all add: cursor_set_key_def)
  obtain r3 s3 where ps: "hs_position_search ?s2 a = (r3, s3)"
    by (cases "hs_position_search ?s2 a")
  have st3: "steps ?ops s s3"
    using st2 position_search_steps[OF ps, of ?ops] by (auto intro: steps_trans)
  show ?thesis
    using assms st1 st3
    by (auto simp: hs_cursor_position_int_def al ps split: if_splits
        intro: steps_trans[OF _ wt_scr_free_steps])
qed

lemma search_near_before_logs:
  assumes "wt_hs_cursor_search_near_before s = (r, s')"
  shows "isolation s' = isolation s \<and> cur_read_committed s' = cur_read_committed s
       \<and> logs (\<lambda>e. fst e \<noteq> OpNext) s s'"
proof -
  let ?ops = "{OpSearchNear, OpPrev}"
  let ?s0 = "s\<lparr>isolation := WT_ISO_READ_UNCOMMITTED\<rparr>"
  obtain r1 a s1 where al: "wt_scr_alloc ?s0 = (r1, a, s1)" by (cases "wt_scr_alloc ?s0")
  note st1 = wt_scr_alloc_steps[OF al, of ?ops]
  obtain r2 s2 where ps: "hs_position_search s1 a = (r2, s2)" by (cases "hs_position_search s1 a")
  have st2: "steps ?ops ?s0 (wt_scr_free s2 (Some a))"
    using st1 position_search_steps[OF ps, of ?ops]
    by (auto intro: steps_trans[OF _ wt_scr_free_steps] steps_trans)
  have e: "s' = s1\<lparr>isolation := isolation s\<rparr>
         \<or> s' = (wt_scr_free s2 (Some a))\<lparr>isolation := isolation s\<rparr>"
    using assms by (auto simp: wt_hs_cursor_search_near_before_def al ps split: if_splits)
  have l1: "logs (\<lambda>e. fst e \<noteq> OpNext) ?s0 s1"
    using st1 by (rule steps_logs) auto
  have l2: "logs (\<lambda>e. fst e \<noteq> OpNext) ?s0 (wt_scr_free s2 (Some a))"
    using st2 by (rule steps_logs) auto
  from e show ?thesis
  proof
    assume "s' = s1\<lparr>isolation := isolation s\<rparr>"
    then show ?thesis using st1 l1 by (auto simp: steps_def logs_def)
  next
    assume "s' = (wt_scr_free s2 (Some a))\<lparr>isolation := isolation s\<rparr>"
    then show ?thesis using st2 l2 by (auto simp: steps_def logs_def)
  qed
qed

lemma fu_prim_steps:
  "wt_upd_alloc s = (r, s') \<Longrightarrow> steps ops s s'"
  "wt_modify_vector_push s = (r, s') \<Longrightarrow> steps ops s s'"
  "wt_modify_apply_item X s = (r, s') \<Longrightarrow> steps ops s s'"
  "wt_buf_set_upd_value s = (r, s') \<Longrightarrow> steps ops s s'"
  "cursor_close s = (r, s') \<Longrightarrow> steps ops s s'"
  by (auto simp: wt_upd_alloc_def wt_modify_vector_push_def wt_modify_apply_item_def
      wt_buf_set_upd_value_def cursor_close_def
      split: prod.splits if_splits option.splits dest!: fault_steps[where ops = ops]
      elim!: steps_to_same)

lemma fu_upd_steps [simp]:
  "steps ops s (wt_free_update_list s)" "steps ops s (wt_modify_vector_pop s)"
  "steps ops s (store_hs_value s v)" "steps ops s (hs_find_upd_report s)"
  by (auto simp: wt_free_update_list_def wt_modify_vector_pop_def store_hs_value_def
      hs_find_upd_report_def steps_def split: option.splits list.splits)

lemma walk_steps:
  "hs_find_upd_walk s = (r, s') \<Longrightarrow> steps {OpNext, OpGetValue} s s'"
proof (induction s arbitrary: r s' rule: hs_find_upd_walk.induct)
  case (1 s)
  let ?ops = "{OpNext, OpGetValue}"
  note w = "1.prems"[unfolded hs_find_upd_walk.simps[of s]]
  show ?case
  proof (cases "upd_type s \<noteq> WT_UPDATE_MODIFY")
    case True
    then show ?thesis using w by simp
  next
    case mod: False
    obtain r1 s1 where a: "wt_upd_alloc s = (r1, s1)" by (cases "wt_upd_alloc s")
    note st1 = fu_prim_steps(1)[OF a, of ?ops]
    show ?thesis
    proof (cases "r1 = 0")
      case False
      then show ?thesis using w mod st1 by (simp add: a)
    next
      case r1: True
      obtain r2 s2 where p: "wt_modify_vector_push s1 = (r2, s2)"
        by (cases "wt_modify_vector_push s1")
      note st2 = steps_trans[OF st1 fu_prim_steps(2)[OF p, of ?ops]]
      show ?thesis
      proof (cases "r2 = 0")
        case False
        then show ?thesis using w mod r1 st2 by (simp add: a p)
      next
        case r2: True
        obtain r3 s3 where n: "cursor_next (s2\<lparr>mod_upd := None\<rparr>) = (r3, s3)"
          by (cases "cursor_next (s2\<lparr>mod_upd := None\<rparr>)")
        have "steps ?ops (s2\<lparr>mod_upd := None\<rparr>) s3"
          using cursor_next_steps[OF n, of ?ops] by simp
        then have "steps ?ops s2 s3" by (rule steps_from_same[rotated -1]) simp_all
        with st2 have st3: "steps ?ops s s3" by (rule steps_trans)
        show ?thesis
        proof (cases "r3 = 0")
          case False
          then show ?thesis
            using w mod r1 r2 st3
            by (auto simp: a p n split: if_splits elim!: steps_to_same)
        next
          case r3: True
          obtain r4 v s4 where g: "cursor_get_value s3 = (r4, v, s4)"
            by (cases "cursor_get_value s3")
          have st4: "steps ?ops s s4"
            using st3 cursor_get_value_steps[OF g, of ?ops] by (auto intro: steps_trans)
          show ?thesis
          proof (cases "r4 = 0")
            case False
            then show ?thesis
              using w mod r1 r2 r3 st4 by (simp add: a p n g WT_NOTFOUND_def)
          next
            case r4: True
            let ?s5 = "(store_hs_value s4 v)\<lparr>upd_type := ucast (rec_upd_type_full v)\<rparr>"
            have rec: "hs_find_upd_walk ?s5 = (r, s')"
              using w mod r1 r2 r3 r4 by (simp add: a p n g WT_NOTFOUND_def)
            have "steps ?ops ?s5 s'"
              using "1.IH"[OF mod a[symmetric] _ p[symmetric] _ n[symmetric] _ _ g[symmetric] refl _ rec]
                r1 r2 r3 r4
              by (simp add: WT_NOTFOUND_def)
            then have "steps ?ops s4 s'"
              by (rule steps_from_same[rotated -1]) (simp_all add: store_hs_value_def split: option.splits)
            with st4 show ?thesis by (rule steps_trans)
          qed
        qed
      qed
    qed
  qed
qed

lemma squash_steps:
  "hs_find_upd_squash X s = (r, s') \<Longrightarrow> steps ops s s'"
proof (induction X s arbitrary: r s' rule: hs_find_upd_squash.induct)
  case (1 X s)
  note w = "1.prems"[unfolded hs_find_upd_squash.simps[of X s]]
  show ?case
  proof (cases "modifies s = []")
    case True
    then show ?thesis using w by simp
  next
    case ne: False
    obtain r1 s1 where a: "wt_modify_apply_item X (wt_modify_vector_pop s) = (r1, s1)"
      by (cases "wt_modify_apply_item X (wt_modify_vector_pop s)")
    have st1: "steps ops s s1"
      using fu_prim_steps(3)[OF a, of ops] by (auto intro: steps_trans[OF fu_upd_steps(2)])
    show ?thesis
    proof (cases "r1 = 0")
      case False
      then show ?thesis using w ne st1 by (simp add: a)
    next
      case True
      then have rec: "hs_find_upd_squash X (wt_free_update_list s1) = (r, s')"
        using w ne by (simp add: a)
      have "steps ops (wt_free_update_list s1) s'"
        using "1.IH"[OF ne a[symmetric] _ rec] True by simp
      with steps_trans[OF st1 fu_upd_steps(1)] show ?thesis by (rule steps_trans)
    qed
  qed
qed

lemma drain_steps: "steps ops s (hs_find_upd_drain s)"
proof (induction s rule: hs_find_upd_drain.induct)
  case (1 s)
  show ?case
  proof (cases "modifies s = []")
    case True
    then show ?thesis by (subst hs_find_upd_drain.simps) simp
  next
    case False
    have "steps ops s (wt_free_update_list (wt_modify_vector_pop s))"
      by (rule steps_trans[OF fu_upd_steps(2) fu_upd_steps(1)])
    with "1.IH"[OF False] show ?thesis
      using False by (subst hs_find_upd_drain.simps) (auto intro: steps_trans)
  qed
qed

text \<open>The paths through the delta-chain walk, as an induction rule.\<close>

lemma walk_paths [consumes 1, case_names stop alloc_fail push_fail fallback next_fail get_fail loop]:
  assumes run: "hs_find_upd_walk s = (r, s')"
    and stop: "\<And>s. upd_type s \<noteq> WT_UPDATE_MODIFY \<Longrightarrow> P s 0 s"
    and alloc_fail: "\<And>s r1 s1. upd_type s = WT_UPDATE_MODIFY \<Longrightarrow> wt_upd_alloc s = (r1, s1) \<Longrightarrow>
        r1 \<noteq> 0 \<Longrightarrow> P s r1 s1"
    and push_fail: "\<And>s s1 r2 s2. upd_type s = WT_UPDATE_MODIFY \<Longrightarrow> wt_upd_alloc s = (0, s1) \<Longrightarrow>
        wt_modify_vector_push s1 = (r2, s2) \<Longrightarrow> r2 \<noteq> 0 \<Longrightarrow> P s r2 s2"
    and fallback: "\<And>s s1 s2 s3. upd_type s = WT_UPDATE_MODIFY \<Longrightarrow> wt_upd_alloc s = (0, s1) \<Longrightarrow>
        wt_modify_vector_push s1 = (0, s2) \<Longrightarrow>
        cursor_next (s2\<lparr>mod_upd := None\<rparr>) = (WT_NOTFOUND, s3) \<Longrightarrow>
        P s 0 (s3\<lparr>orig_hs_value_buf := hs_value s3, hs_value := Some (on_disk_buf s3),
                   upd_type := WT_UPDATE_STANDARD\<rparr>)"
    and next_fail: "\<And>s s1 s2 r3 s3. upd_type s = WT_UPDATE_MODIFY \<Longrightarrow> wt_upd_alloc s = (0, s1) \<Longrightarrow>
        wt_modify_vector_push s1 = (0, s2) \<Longrightarrow>
        cursor_next (s2\<lparr>mod_upd := None\<rparr>) = (r3, s3) \<Longrightarrow> r3 \<noteq> 0 \<Longrightarrow>
        r3 \<noteq> WT_NOTFOUND \<Longrightarrow> P s r3 s3"
    and get_fail: "\<And>s s1 s2 s3 r4 v s4. upd_type s = WT_UPDATE_MODIFY \<Longrightarrow>
        wt_upd_alloc s = (0, s1) \<Longrightarrow> wt_modify_vector_push s1 = (0, s2) \<Longrightarrow>
        cursor_next (s2\<lparr>mod_upd := None\<rparr>) = (0, s3) \<Longrightarrow>
        cursor_get_value s3 = (r4, v, s4) \<Longrightarrow> r4 \<noteq> 0 \<Longrightarrow> P s r4 s4"
    and loop: "\<And>s s1 s2 s3 v s4 r s'. upd_type s = WT_UPDATE_MODIFY \<Longrightarrow>
        wt_upd_alloc s = (0, s1) \<Longrightarrow> wt_modify_vector_push s1 = (0, s2) \<Longrightarrow>
        cursor_next (s2\<lparr>mod_upd := None\<rparr>) = (0, s3) \<Longrightarrow>
        cursor_get_value s3 = (0, v, s4) \<Longrightarrow>
        hs_find_upd_walk ((store_hs_value s4 v)\<lparr>upd_type := ucast (rec_upd_type_full v)\<rparr>)
          = (r, s') \<Longrightarrow>
        P ((store_hs_value s4 v)\<lparr>upd_type := ucast (rec_upd_type_full v)\<rparr>) r s' \<Longrightarrow>
        P s r s'"
  shows "P s r s'"
  using run
proof (induction s arbitrary: r s' rule: hs_find_upd_walk.induct)
  case (1 s)
  note w = "1.prems"[unfolded hs_find_upd_walk.simps[of s]]
  show ?case
  proof (cases "upd_type s \<noteq> WT_UPDATE_MODIFY")
    case True
    then show ?thesis using w stop by simp
  next
    case False
    then have mod: "upd_type s = WT_UPDATE_MODIFY" by simp
    obtain r1 s1 where a: "wt_upd_alloc s = (r1, s1)" by (cases "wt_upd_alloc s")
    show ?thesis
    proof (cases "r1 = 0")
      case False
      then show ?thesis using w mod alloc_fail[OF mod a] by (simp add: a)
    next
      case r1: True
      note a0 = a[unfolded r1]
      obtain r2 s2 where p: "wt_modify_vector_push s1 = (r2, s2)"
        by (cases "wt_modify_vector_push s1")
      show ?thesis
      proof (cases "r2 = 0")
        case False
        then show ?thesis using w mod r1 push_fail[OF mod a0 p] by (simp add: a p)
      next
        case r2: True
        note p0 = p[unfolded r2]
        obtain r3 s3 where n: "cursor_next (s2\<lparr>mod_upd := None\<rparr>) = (r3, s3)"
          by (cases "cursor_next (s2\<lparr>mod_upd := None\<rparr>)")
        show ?thesis
        proof (cases "r3 = 0")
          case False
          show ?thesis
          proof (cases "r3 = WT_NOTFOUND")
            case True
            then show ?thesis
              using w mod r1 r2 fallback[OF mod a0 p0 n[unfolded True]] by (simp add: a p n)
          next
            case nnf: False
            then show ?thesis
              using w mod r1 r2 False next_fail[OF mod a0 p0 n False nnf] by (simp add: a p n)
          qed
        next
          case r3: True
          note n0 = n[unfolded r3]
          obtain r4 v s4 where g: "cursor_get_value s3 = (r4, v, s4)"
            by (cases "cursor_get_value s3")
          show ?thesis
          proof (cases "r4 = 0")
            case False
            then show ?thesis
              using w mod r1 r2 r3 get_fail[OF mod a0 p0 n0 g False]
              by (simp add: a p n g WT_NOTFOUND_def)
          next
            case r4: True
            note g0 = g[unfolded r4]
            let ?s5 = "(store_hs_value s4 v)\<lparr>upd_type := ucast (rec_upd_type_full v)\<rparr>"
            have rec: "hs_find_upd_walk ?s5 = (r, s')"
              using w mod r1 r2 r3 r4 by (simp add: a p n g WT_NOTFOUND_def)
            have "P ?s5 r s'"
              using "1.IH"[OF False a[symmetric] _ p[symmetric] _ n[symmetric] _ _ g[symmetric] refl _ rec]
                r1 r2 r3 r4
              by (simp add: WT_NOTFOUND_def)
            from loop[OF mod a0 p0 n0 g0 rec this] show ?thesis .
          qed
        qed
      qed
    qed
  qed
qed


section \<open>What every path leaves unchanged\<close>

text \<open>
  \<open>env_rel s s'\<close>: what every operation below the resolver may change: it consumes
  scheduled return codes, allocates buffers at fresh addresses, writes buffers, moves the
  cursor and logs calls. Everything else, the resolver's variables included, is untouched.
\<close>

definition env_rel :: "'a env_scheme \<Rightarrow> 'a env_scheme \<Rightarrow> bool" where
  "env_rel s s' \<longleftrightarrow>
     s' = s\<lparr>faults := faults s', bufs := bufs s', next_addr := next_addr s',
            cur_pos := cur_pos s', cur_key := cur_key s', calls := calls s'\<rparr>
     \<and> (\<exists>used. faults s = used @ faults s') \<and> next_addr s \<le> next_addr s'"

lemma env_rel_refl [simp]: "env_rel s s"
  unfolding env_rel_def by (cases s) simp

lemma env_rel_trans: "env_rel s s1 \<Longrightarrow> env_rel s1 s2 \<Longrightarrow> env_rel s s2"
  unfolding env_rel_def by (cases s; cases s1; cases s2) auto

lemma env_rel_upd:
  "env_rel (s\<lparr>faults := f\<rparr>) s' \<Longrightarrow> \<exists>used. faults s = used @ f \<Longrightarrow> env_rel s s'"
  "env_rel (s\<lparr>calls := c\<rparr>) s' \<Longrightarrow> env_rel s s'"
  "env_rel (s\<lparr>cur_pos := p\<rparr>) s' \<Longrightarrow> env_rel s s'"
  "env_rel (s\<lparr>cur_key := k\<rparr>) s' \<Longrightarrow> env_rel s s'"
  "env_rel (s\<lparr>bufs := b\<rparr>) s' \<Longrightarrow> env_rel s s'"
  unfolding env_rel_def by (cases s; cases s'; auto)+

lemma env_rel_to [simp]:
  "env_rel s (s\<lparr>calls := c\<rparr>)" "env_rel s (s\<lparr>cur_pos := p\<rparr>)"
  "env_rel s (s\<lparr>cur_key := k\<rparr>)" "env_rel s (s\<lparr>bufs := b\<rparr>)"
  unfolding env_rel_def by (cases s; simp)+

lemma env_relD:
  assumes "env_rel s s'"
  shows "hs s' = hs s" "near_landing s' = near_landing s" "isolation s' = isolation s"
    "upd_live s' = upd_live s" "cursors_open s' = cursors_open s"
    "cur_read_committed s' = cur_read_committed s" "next_addr s \<le> next_addr s'"
    "WT_NOTFOUND \<notin> set (faults s) \<Longrightarrow> WT_NOTFOUND \<notin> set (faults s')"
    "faults s = [] \<Longrightarrow> faults s' = []"
  using assms unfolding env_rel_def by (cases s; cases s'; auto)+

lemma env_rel_fuD:
  fixes s :: fu_state
  assumes "env_rel s s'"
  shows "value_format s' = value_format s" "on_disk_buf s' = on_disk_buf s"
    "uv_buf s' = uv_buf s" "uv_durable_start_ts s' = uv_durable_start_ts s"
    "uv_start_txn s' = uv_start_txn s" "uv_type s' = uv_type s"
    "uv_skip_buf s' = uv_skip_buf s" "hs_cursor s' = hs_cursor s"
    "hs_value s' = hs_value s" "orig_hs_value_buf s' = orig_hs_value_buf s"
    "modifies s' = modifies s" "mod_upd s' = mod_upd s"
    "durable_timestamp s' = durable_timestamp s" "upd_type s' = upd_type s"
    "upd_found s' = upd_found s"
  using assms unfolding env_rel_def by (cases s; cases s'; auto)+

lemma fault_rel:
  "fault s = (r, s') \<Longrightarrow>
     env_rel s s' \<and> bufs s' = bufs s \<and> next_addr s' = next_addr s \<and> cur_pos s' = cur_pos s"
  unfolding env_rel_def fault_def by (cases s; cases "faults s") auto

lemma fault_ret: "fault s = (r, s') \<Longrightarrow> r = 0 \<or> r \<in> set (faults s)"
  by (auto simp: fault_def split: list.splits)


lemma logged_rel [simp]: "env_rel s (logged op s)"
  by (simp add: logged_def)

lemma env_rel_same_bufs:
  "env_rel s s1 \<Longrightarrow> bufs s1 = bufs s \<and> next_addr s1 = next_addr s \<Longrightarrow> env_rel s1 s2 \<Longrightarrow>
     bufs s2 = bufs s1 \<and> next_addr s2 = next_addr s1 \<Longrightarrow>
     env_rel s s2 \<and> bufs s2 = bufs s \<and> next_addr s2 = next_addr s"
  by (auto intro: env_rel_trans)

lemma logged_fault_rel:
  "fault (logged op s) = (r, s') \<Longrightarrow>
     env_rel s s' \<and> bufs s' = bufs s \<and> next_addr s' = next_addr s \<and> cur_pos s' = cur_pos s"
  by (auto dest!: fault_rel intro: env_rel_trans[OF logged_rel])

lemma wt_compare_rel:
  "wt_compare s x y = (r, c, s') \<Longrightarrow> env_rel s s' \<and> bufs s' = bufs s \<and> next_addr s' = next_addr s"
  by (auto simp: wt_compare_def split: prod.splits if_splits dest!: fault_rel)

lemma cursor_place_rel [simp]: "env_rel s (cursor_place i s)"
  unfolding cursor_place_def env_rel_def by (cases s) simp

lemma cursor_place_simps [simp]:
  "bufs (cursor_place i s) = bufs s" "next_addr (cursor_place i s) = next_addr s"
  "cur_pos (cursor_place i s) = Some i" "hs (cursor_place i s) = hs s"
  "faults (cursor_place i s) = faults s"
  by (simp_all add: cursor_place_def)

lemma cursor_prev_rel:
  "cursor_prev s = (r, s') \<Longrightarrow> env_rel s s' \<and> bufs s' = bufs s \<and> next_addr s' = next_addr s"
  by (auto simp: cursor_prev_def split: prod.splits if_splits option.splits nat.splits
      dest!: logged_fault_rel intro: env_rel_trans[OF _ cursor_place_rel]
        env_rel_trans[OF _ env_rel_to(2)])

lemma cursor_next_rel:
  "cursor_next s = (r, s') \<Longrightarrow> env_rel s s' \<and> bufs s' = bufs s \<and> next_addr s' = next_addr s"
  by (auto simp: cursor_next_def Let_def split: prod.splits if_splits option.splits
      dest!: logged_fault_rel intro: env_rel_trans[OF _ cursor_place_rel]
        env_rel_trans[OF _ env_rel_to(2)])

lemma cursor_search_near_rel:
  "cursor_search_near s = (r, x, s') \<Longrightarrow>
     env_rel s s' \<and> bufs s' = bufs s \<and> next_addr s' = next_addr s"
  by (auto simp: cursor_search_near_def Let_def
      split: prod.splits if_splits option.splits landing.splits
      dest!: logged_fault_rel intro: env_rel_trans[OF _ cursor_place_rel]
        env_rel_trans[OF _ env_rel_to(2)])

lemma cursor_get_value_rel:
  "cursor_get_value s = (r, v, s') \<Longrightarrow>
     env_rel s s' \<and> bufs s' = bufs s \<and> next_addr s' = next_addr s \<and> cur_pos s' = cur_pos s"
  by (auto simp: cursor_get_value_def split: prod.splits if_splits option.splits
      dest!: logged_fault_rel)


lemma fault_eq:
  "fault s = (r, s') \<Longrightarrow>
     \<exists>f. s' = s\<lparr>faults := f\<rparr> \<and> set f \<subseteq> set (faults s) \<and> (r = 0 \<or> r \<in> set (faults s))"
  unfolding fault_def by (cases s; cases "faults s") auto

lemma hs_value_data_faults [simp]: "hs_value_data (s\<lparr>faults := f\<rparr>) = hs_value_data s"
  by (simp add: hs_value_data_def item_data_def split: option.splits)

lemma item_data_faults: "item_data (s\<lparr>faults := f\<rparr>) a = item_data s a"
  by (simp add: item_data_def)

lemma wt_upd_alloc_eq:
  "wt_upd_alloc s = (r, s') \<Longrightarrow>
     \<exists>f. set f \<subseteq> set (faults s) \<and> (r = 0 \<or> r \<in> set (faults s)) \<and>
     s' = (if r = 0 then s\<lparr>faults := f, upd_live := upd_live s + 1,
                             mod_upd := Some (hs_value_data s)\<rparr>
           else s\<lparr>faults := f\<rparr>)"
  unfolding wt_upd_alloc_def
  by (clarsimp split: prod.splits if_splits dest!: fault_eq) blast+

lemma wt_modify_vector_push_eq:
  "wt_modify_vector_push s = (r, s') \<Longrightarrow>
     \<exists>f. set f \<subseteq> set (faults s) \<and> (r = 0 \<or> r \<in> set (faults s)) \<and>
     s' = (if r = 0 then (case mod_upd s of None \<Rightarrow> s\<lparr>faults := f\<rparr>
                          | Some d \<Rightarrow> s\<lparr>faults := f, modifies := d # modifies s\<rparr>)
           else s\<lparr>faults := f\<rparr>)"
  unfolding wt_modify_vector_push_def
  by (clarsimp split: prod.splits if_splits option.splits dest!: fault_eq) blast+

lemma wt_modify_apply_item_eq:
  "wt_modify_apply_item X s = (r, s') \<Longrightarrow>
     \<exists>f. set f \<subseteq> set (faults s) \<and> (r = 0 \<or> r \<in> set (faults s)) \<and>
     s' = (if r = 0 then
             (case (hs_value s, mod_upd s) of
                (Some a, Some d) \<Rightarrow>
                  s\<lparr>faults := f,
                    bufs := (bufs s)(a \<mapsto> modify_apply_item X (value_format s) (item_data s a) d)\<rparr>
              | _ \<Rightarrow> s\<lparr>faults := f\<rparr>)
           else s\<lparr>faults := f\<rparr>)"
  unfolding wt_modify_apply_item_def
  by (clarsimp simp: item_data_faults split: prod.splits if_splits option.splits dest!: fault_eq) blast+


lemma cursor_close_eq:
  "cursor_close s = (r, s') \<Longrightarrow>
     \<exists>f. set f \<subseteq> set (faults s) \<and> (r = 0 \<or> r \<in> set (faults s)) \<and>
     s' = s\<lparr>faults := f, cursors_open := cursors_open s - 1, cur_pos := None\<rparr>"
  unfolding cursor_close_def
  by (clarsimp split: prod.splits if_splits dest!: fault_eq) blast+

lemma wt_curhs_open_eq:
  "wt_curhs_open s = (r, s') \<Longrightarrow>
     \<exists>f. set f \<subseteq> set (faults s) \<and> (r = 0 \<or> r \<in> set (faults s)) \<and>
     s' = (if r = 0 then s\<lparr>faults := f, cursors_open := cursors_open s + 1, cur_pos := None,
                            cur_key := [], cur_read_committed := False, hs_cursor := True\<rparr>
           else s\<lparr>faults := f\<rparr>)"
  unfolding wt_curhs_open_def
  by (clarsimp split: prod.splits if_splits dest!: fault_eq) blast+

text \<open>What \<^verbatim>\<open>next\<close> and \<^verbatim>\<open>get_value\<close> do to the cursor.\<close>

lemma cursor_next_pos:
  assumes "cursor_next s = (r, s')" "cur_pos s = Some i"
  shows "r = 0 \<Longrightarrow> Suc i < length (hs s) \<and> cur_pos s' = Some (Suc i)"
    and "r = WT_NOTFOUND \<Longrightarrow> WT_NOTFOUND \<notin> set (faults s) \<Longrightarrow>
           length (hs s) \<le> Suc i \<and> cur_pos s' = None"
  using assms
  by (auto simp: cursor_next_def Let_def logged_def WT_NOTFOUND_def
      split: prod.splits if_splits dest!: fault_eq)

lemma cursor_get_value_pos:
  assumes "cursor_get_value s = (0, v, s')"
  shows "\<exists>i. cur_pos s = Some i \<and> i < length (hs s) \<and> v = snd (hs s ! i)"
  using assms
  by (auto simp: cursor_get_value_def logged_def EINVAL_def
      split: prod.splits if_splits option.splits dest!: fault_eq)

lemma env_rel_faults: "env_rel s s' \<Longrightarrow> set (faults s') \<subseteq> set (faults s)"
  unfolding env_rel_def by auto


text \<open>
  \<open>reading s i a\<close>: the resolver has the cursor on record \<open>i\<close>, whose payload is in the
  buffer \<open>a\<close> that \<^verbatim>\<open>hs_value\<close> points to and whose type is in \<^verbatim>\<open>upd_type\<close>: the
  state \<^verbatim>\<open>get_value\<close> leaves at lines 254-256 and 311-313.
\<close>

definition reading :: "fu_state \<Rightarrow> nat \<Rightarrow> nat \<Rightarrow> bool" where
  "reading s i a \<longleftrightarrow>
     cur_pos s = Some i \<and> i < length (hs s) \<and> hs_value s = Some a \<and>
     bufs s a = Some (rec_value (snd (hs s ! i))) \<and>
     upd_type s = ucast (rec_upd_type_full (snd (hs s ! i)))"

lemma walk_body:
  assumes a: "wt_upd_alloc s = (0, s1)" and p: "wt_modify_vector_push s1 = (0, s2)"
    and n: "cursor_next (s2\<lparr>mod_upd := None\<rparr>) = (r3, s3)"
  shows "hs s3 = hs s" "on_disk_buf s3 = on_disk_buf s" "hs_value s3 = hs_value s"
    "bufs s3 = bufs s" "orig_hs_value_buf s3 = orig_hs_value_buf s"
    "set (faults s3) \<subseteq> set (faults s)" "set (faults s2) \<subseteq> set (faults s)"
    "cur_pos s2 = cur_pos s" "hs s2 = hs s" "upd_type s3 = upd_type s"
proof -
  from wt_upd_alloc_eq[OF a] obtain f1 where f1: "set f1 \<subseteq> set (faults s)"
    and s1: "s1 = s\<lparr>faults := f1, upd_live := upd_live s + 1, mod_upd := Some (hs_value_data s)\<rparr>"
    by auto
  from wt_modify_vector_push_eq[OF p] obtain f2 where f2: "set f2 \<subseteq> set (faults s1)"
    and s2: "s2 = s1\<lparr>faults := f2, modifies := hs_value_data s # modifies s1\<rparr>"
    by (auto simp: s1)
  note r = cursor_next_rel[OF n]
  note e = env_relD[OF conjunct1[OF r]] env_rel_fuD[OF conjunct1[OF r]]
    env_rel_faults[OF conjunct1[OF r]]
  show "hs s3 = hs s" "on_disk_buf s3 = on_disk_buf s" "hs_value s3 = hs_value s"
    "bufs s3 = bufs s" "orig_hs_value_buf s3 = orig_hs_value_buf s"
    "set (faults s3) \<subseteq> set (faults s)" "set (faults s2) \<subseteq> set (faults s)"
    "cur_pos s2 = cur_pos s" "hs s2 = hs s" "upd_type s3 = upd_type s"
    using e r f1 f2 by (auto simp: s1 s2)
qed

lemma walk_forward:
  assumes "hs_find_upd_walk s = (r, s')"
  shows "r = 0 \<Longrightarrow> WT_NOTFOUND \<notin> set (faults s) \<Longrightarrow> reading s i a \<Longrightarrow>
     hs s' = hs s \<and> on_disk_buf s' = on_disk_buf s \<and>
     (case cur_pos s' of
        Some j \<Rightarrow> i \<le> j \<and> reading s' j a \<and> \<not> is_modify (hs s ! j) \<and>
                  (\<forall>l. i \<le> l \<and> l < j \<longrightarrow> is_modify (hs s ! l)) \<and>
                  orig_hs_value_buf s' = orig_hs_value_buf s
      | None \<Rightarrow> hs_value s' = Some (on_disk_buf s) \<and> orig_hs_value_buf s' = Some a \<and>
                upd_type s' = WT_UPDATE_STANDARD \<and>
                (\<forall>l. i \<le> l \<and> l < length (hs s) \<longrightarrow> is_modify (hs s ! l)))"
  using assms
proof (induction arbitrary: i rule: walk_paths)
  case (stop s)
  then show ?case by (auto simp: reading_def is_modify_def)
next
  case (alloc_fail s r1 s1)
  then show ?case by simp
next
  case (push_fail s s1 r2 s2)
  then show ?case by simp
next
  case (fallback s s1 s2 s3)
  note b = walk_body[OF fallback(2,3,4)]
  have cp: "cur_pos (s2\<lparr>mod_upd := None\<rparr>) = Some i" using b(8) fallback(7) by (simp add: reading_def)
  have nf: "WT_NOTFOUND \<notin> set (faults (s2\<lparr>mod_upd := None\<rparr>))" using b(7) fallback(6) by auto
  from cursor_next_pos(2)[OF fallback(4) cp refl nf]
  have e: "length (hs s) \<le> Suc i" "cur_pos s3 = None" using b(9) by simp_all
  have "is_modify (hs s ! i)" using fallback(1,7) by (simp add: reading_def is_modify_def)
  moreover have "l = i" if "i \<le> l" "l < length (hs s)" for l using that e(1) by simp
  ultimately show ?case
    using e(2) b(1,2,3) fallback(7) by (auto simp: reading_def)
next
  case (next_fail s s1 s2 r3 s3)
  then show ?case by simp
next
  case (get_fail s s1 s2 s3 r4 v s4)
  then show ?case by simp
next
  case (loop s s1 s2 s3 v s4 r s')
  note b = walk_body[OF loop(2,3,4)]
  have rd: "reading s i a" by fact
  have cp: "cur_pos (s2\<lparr>mod_upd := None\<rparr>) = Some i" using b(8) rd by (simp add: reading_def)
  from cursor_next_pos(1)[OF loop(4) cp refl]
  have e: "Suc i < length (hs s)" "cur_pos s3 = Some (Suc i)" using b(9) by simp_all
  note g = cursor_get_value_rel[OF loop(5)]
  note ge = env_relD[OF conjunct1[OF g]] env_rel_fuD[OF conjunct1[OF g]]
    env_rel_faults[OF conjunct1[OF g]]
  from cursor_get_value_pos[OF loop(5)] e(2) b(1)
  have v: "v = snd (hs s ! Suc i)" by simp
  let ?s5 = "(store_hs_value s4 v)\<lparr>upd_type := ucast (rec_upd_type_full v)\<rparr>"
  have s5: "hs ?s5 = hs s" "on_disk_buf ?s5 = on_disk_buf s" "faults ?s5 = faults s4"
    "orig_hs_value_buf ?s5 = orig_hs_value_buf s"
    using ge b by (simp_all add: store_hs_value_def split: option.splits)
  have rd5: "reading ?s5 (Suc i) a"
    using ge g b e rd v by (simp add: reading_def store_hs_value_def)
  have nf5: "WT_NOTFOUND \<notin> set (faults ?s5)"
    using ge(25) b(6) loop(9) unfolding s5(3) by auto
  have m: "is_modify (hs s ! i)" using loop(1) rd by (simp add: reading_def is_modify_def)
  have ext: "is_modify (hs s ! l)" if "i \<le> l" "l < j" "\<forall>l. Suc i \<le> l \<and> l < j \<longrightarrow> is_modify (hs s ! l)"
    for l j using that m by (cases "l = i") auto
  from loop(7)[OF loop(8) nf5 rd5]
  show ?case
    unfolding s5 by (auto split: option.splits dest: ext)
qed

lemma env_rel_iso:
  "env_rel (s\<lparr>isolation := x\<rparr>) s' \<Longrightarrow> env_rel s (s'\<lparr>isolation := isolation s\<rparr>)"
  unfolding env_rel_def by (cases s; cases s') auto

lemma env_rel_alloc: "next_addr s \<le> n \<Longrightarrow> env_rel s (s\<lparr>bufs := b, next_addr := n\<rparr>)"
  unfolding env_rel_def by (cases s) simp

lemma wt_scr_alloc_rel:
  "wt_scr_alloc s = (r, a, s') \<Longrightarrow>
     env_rel s s' \<and>
     (if r = 0 then a = next_addr s \<and> bufs s' = (bufs s)(a \<mapsto> []) \<and> next_addr s' = Suc a
      else bufs s' = bufs s \<and> next_addr s' = next_addr s)"
proof -
  obtain r1 s1 where f: "fault s = (r1, s1)" by (cases "fault s")
  note fr = fault_rel[OF f]
  show "wt_scr_alloc s = (r, a, s') \<Longrightarrow> ?thesis"
  proof (cases "r1 = 0")
    case False
    assume "wt_scr_alloc s = (r, a, s')"
    then show ?thesis using fr False by (auto simp: wt_scr_alloc_def f)
  next
    case True
    assume "wt_scr_alloc s = (r, a, s')"
    then have e: "r = 0" "a = next_addr s1"
      "s' = s1\<lparr>bufs := (bufs s1)(next_addr s1 \<mapsto> []), next_addr := Suc (next_addr s1)\<rparr>"
      using True by (auto simp: wt_scr_alloc_def f)
    have "env_rel s1 s'" unfolding e by (rule env_rel_alloc) simp
    with fr have "env_rel s s'" by (blast intro: env_rel_trans)
    then show ?thesis using fr by (simp add: e)
  qed
qed

lemma wt_scr_free_rel [simp]: "env_rel s (wt_scr_free s p)"
  by (simp add: wt_scr_free_def split: option.splits)

lemma wt_scr_free_simps [simp]:
  "bufs (wt_scr_free s (Some a)) = (bufs s)(a := None)"
  "next_addr (wt_scr_free s p) = next_addr s"
  by (simp_all add: wt_scr_free_def split: option.splits)

lemma wt_buf_set_rel:
  "wt_buf_set s a d = (r, s') \<Longrightarrow>
     env_rel s s' \<and> next_addr s' = next_addr s \<and>
     (bufs s' = bufs s \<or> bufs s' = (bufs s)(a \<mapsto> d))"
proof -
  obtain r1 s1 where f: "fault s = (r1, s1)" by (cases "fault s")
  note fr = fault_rel[OF f]
  show "wt_buf_set s a d = (r, s') \<Longrightarrow> ?thesis"
  proof (cases "r1 = 0")
    case False
    assume "wt_buf_set s a d = (r, s')"
    then show ?thesis using fr False by (auto simp: wt_buf_set_def f)
  next
    case True
    assume "wt_buf_set s a d = (r, s')"
    then have e: "s' = s1\<lparr>bufs := (bufs s1)(a \<mapsto> d)\<rparr>"
      using True by (auto simp: wt_buf_set_def f)
    have "env_rel s1 s'" unfolding e by simp
    with fr have "env_rel s s'" by (blast intro: env_rel_trans)
    then show ?thesis using fr by (simp add: e)
  qed
qed

lemma prev_loop_rel:
  "hs_position_prev_loop s a = (r, s') \<Longrightarrow>
     env_rel s s' \<and> bufs s' = bufs s \<and> next_addr s' = next_addr s"
proof (induction s a arbitrary: r s' rule: hs_position_prev_loop.induct)
  case (1 s a)
  obtain r1 s1 where p: "cursor_prev s = (r1, s1)" by (cases "cursor_prev s")
  note st1 = cursor_prev_rel[OF p]
  show ?case
  proof (cases "r1 = 0")
    case False
    then show ?thesis
      using "1.prems"(1) st1 by (subst (asm) hs_position_prev_loop.simps) (simp add: p)
  next
    case True
    obtain r2 c s2 where q: "wt_compare s1 (cur_key s1) (item_data s1 a) = (r2, c, s2)"
      by (cases "wt_compare s1 (cur_key s1) (item_data s1 a)")
    note st2 = env_rel_same_bufs[OF conjunct1[OF st1] conjunct2[OF st1]
        conjunct1[OF wt_compare_rel[OF q]] conjunct2[OF wt_compare_rel[OF q]]]
    show ?thesis
    proof (cases "r2 \<noteq> 0 \<or> c \<le> 0")
      case True
      then show ?thesis
        using "1.prems"(1) st2 \<open>r1 = 0\<close>
        by (subst (asm) hs_position_prev_loop.simps) (auto simp: p q split: if_splits)
    next
      case False
      then have "hs_position_prev_loop s2 a = (r, s')"
        using "1.prems"(1) \<open>r1 = 0\<close>
        by (subst (asm) hs_position_prev_loop.simps) (auto simp: p q)
      from "1.IH"[OF p[symmetric] _ q[symmetric] refl _ _ this] False \<open>r1 = 0\<close>
      have "env_rel s2 s' \<and> bufs s' = bufs s2 \<and> next_addr s' = next_addr s2" by auto
      with st2 show ?thesis by (auto intro: env_rel_trans)
    qed
  qed
qed

lemma position_search_rel:
  assumes "hs_position_search s a = (r, s')"
  shows "env_rel s s' \<and> next_addr s' = next_addr s \<and>
         (bufs s' = bufs s \<or> (\<exists>d. bufs s' = (bufs s)(a \<mapsto> d)))"
proof -
  obtain r1 s1 where b: "wt_buf_set s a (cur_key s) = (r1, s1)" by (cases "wt_buf_set s a (cur_key s)")
  note st1 = wt_buf_set_rel[OF b]
  obtain r2 x s2 where n: "cursor_search_near s1 = (r2, x, s2)" by (cases "cursor_search_near s1")
  note st2 = cursor_search_near_rel[OF n]
  show ?thesis
  proof (cases "r1 = 0 \<and> r2 = 0 \<and> x > 0")
    case True
    then have "hs_position_prev_loop s2 a = (r, s')"
      using assms(1) by (simp add: hs_position_search_def b n)
    from prev_loop_rel[OF this] st1 st2 show ?thesis
      by (auto intro: env_rel_trans)
  next
    case False
    then show ?thesis
      using assms(1) st1 st2 by (auto simp: hs_position_search_def b n split: if_splits
          intro: env_rel_trans)
  qed
qed

lemma search_near_before_rel:
  assumes "wt_hs_cursor_search_near_before s = (r, s')"
  shows "env_rel s s' \<and>
         (bufs s' = bufs s \<and> next_addr s' = next_addr s \<or>
          bufs s' = (bufs s)(next_addr s := None) \<and> next_addr s' = Suc (next_addr s))"
proof -
  let ?s0 = "s\<lparr>isolation := WT_ISO_READ_UNCOMMITTED\<rparr>"
  obtain r1 a s1 where al: "wt_scr_alloc ?s0 = (r1, a, s1)" by (cases "wt_scr_alloc ?s0")
  note st1 = wt_scr_alloc_rel[OF al]
  obtain r2 s2 where ps: "hs_position_search s1 a = (r2, s2)" by (cases "hs_position_search s1 a")
  note st2 = position_search_rel[OF ps]
  show ?thesis
  proof (cases "r1 = 0")
    case False
    then have "s' = s1\<lparr>isolation := isolation s\<rparr>"
      using assms by (simp add: wt_hs_cursor_search_near_before_def al)
    then show ?thesis using st1 False by (auto intro: env_rel_iso)
  next
    case True
    then have s': "s' = (wt_scr_free s2 (Some a))\<lparr>isolation := isolation s\<rparr>"
      using assms by (simp add: wt_hs_cursor_search_near_before_def al ps)
    have "env_rel ?s0 (wt_scr_free s2 (Some a))"
      using st1 st2 by (auto intro: env_rel_trans[OF _ wt_scr_free_rel] env_rel_trans)
    then have "env_rel s s'" unfolding s' by (rule env_rel_iso)
    moreover have "bufs s' = (bufs s)(next_addr s := None)" "next_addr s' = Suc (next_addr s)"
      using st1 st2 True by (auto simp: s')
    ultimately show ?thesis by simp
  qed
qed

lemma logs_mono: "logs E s s' \<Longrightarrow> (\<And>e. E e \<Longrightarrow> E' e) \<Longrightarrow> logs E' s s'"
  unfolding logs_def by blast

text \<open>The calls of the walk and the squash, under the flag the walk sets.\<close>

lemma build_logs:
  assumes "hs_find_upd_build X s = (r, s')"
  shows "isolation s' = isolation s \<and>
         logs (\<lambda>e. fst e \<in> {OpNext, OpGetValue} \<and> fst (snd e) = isolation s \<and> snd (snd e)) s s'"
proof (cases "upd_type s = WT_UPDATE_MODIFY")
  case False
  then show ?thesis using assms by (simp add: hs_find_upd_build_def)
next
  case True
  let ?ops = "{OpNext, OpGetValue}"
  let ?s0 = "s\<lparr>cur_read_committed := True\<rparr>"
  obtain r1 s1 where w: "hs_find_upd_walk ?s0 = (r1, s1)" by (cases "hs_find_upd_walk ?s0")
  note st1 = walk_steps[OF w]
  have "steps ?ops ?s0 s'"
  proof (cases "r1 = 0")
    case False
    then show ?thesis using assms True st1 by (simp add: hs_find_upd_build_def w)
  next
    case r1: True
    then have "hs_find_upd_squash X s1 = (r, s')"
      using assms True by (simp add: hs_find_upd_build_def w)
    from steps_trans[OF st1 squash_steps[OF this]] show ?thesis .
  qed
  then have "isolation s' = isolation ?s0"
    and "logs (\<lambda>e. fst e \<in> ?ops \<and> fst (snd e) = isolation s \<and> snd (snd e)) ?s0 s'"
    by (auto simp: steps_def logs_def)
  then show ?thesis by (auto intro: logs_from_same[rotated])
qed

lemma copy_steps: "hs_find_upd_copy s = (r, s') \<Longrightarrow> steps ops s s'"
  by (auto simp: hs_find_upd_copy_def split: prod.splits if_splits
      dest!: fu_prim_steps(4)[where ops = ops] intro: steps_trans[OF _ fu_upd_steps(4)])

lemma value_logs:
  assumes run: "hs_find_upd_value X s = (r, s')"
    and E: "\<And>e. fst e \<noteq> OpNext \<Longrightarrow> E e"
    and En: "\<not> uv_skip_buf s \<Longrightarrow> E (OpNext, isolation s, True)"
  shows "isolation s' = isolation s \<and> logs E s s'"
proof -
  obtain r1 a s1 where al: "wt_scr_alloc s = (r1, a, s1)" by (cases "wt_scr_alloc s")
  note st1 = wt_scr_alloc_steps[OF al, of "{OpGetValue}"]
  note e1 = env_rel_fuD[OF conjunct1[OF wt_scr_alloc_rel[OF al]]]
  let ?s1 = "s1\<lparr>hs_value := Some a\<rparr>"
  obtain r2 v s2 where g: "cursor_get_value ?s1 = (r2, v, s2)" by (cases "cursor_get_value ?s1")
  have "steps {OpGetValue} ?s1 s2" using cursor_get_value_steps[OF g] by simp
  then have "steps {OpGetValue} s1 s2" by (rule steps_from_same[rotated -1]) simp_all
  with st1 have st2: "steps {OpGetValue} s s2" by (rule steps_trans)
  note e2 = env_rel_fuD[OF conjunct1[OF cursor_get_value_rel[OF g]]]
  let ?s3 = "(store_hs_value s2 v)\<lparr>durable_timestamp := rec_durable_ts v,
                upd_type := ucast (rec_upd_type_full v), upd_found := True\<rparr>"
  have st3: "steps {OpGetValue} s ?s3"
    using st2 by (rule steps_to_same) (simp_all add: store_hs_value_def split: option.splits)
  have sk: "uv_skip_buf ?s3 = uv_skip_buf s"
    using e1(7) e2(7) by (simp add: store_hs_value_def split: option.splits)
  have EG: "\<And>e. fst e \<in> {OpGetValue} \<Longrightarrow> E e" using E by simp
  have iso: "\<And>t. steps {OpGetValue} s t \<Longrightarrow> isolation t = isolation s \<and> logs E s t"
    by (auto simp: steps_def intro: steps_logs EG)
  show ?thesis
  proof (cases "r1 = 0 \<and> r2 = 0")
    case False
    then have "s' = s1 \<or> s' = s2"
      using run by (auto simp: hs_find_upd_value_def al g split: if_splits)
    then show ?thesis using iso[OF st1] iso[OF st2] by blast
  next
    case ok: True
    show ?thesis
    proof (cases "uv_skip_buf s")
      case True
      then have s': "s' = hs_find_upd_report ?s3"
        using run ok sk by (simp add: hs_find_upd_value_def al g Let_def)
      have "steps {OpGetValue} s (hs_find_upd_report ?s3)"
        by (rule steps_trans[OF st3 fu_upd_steps(4)])
      then show ?thesis unfolding s' by (rule iso)
    next
      case False
      obtain r3 s4 where b: "hs_find_upd_build X ?s3 = (r3, s4)"
        by (cases "hs_find_upd_build X ?s3")
      note bl = build_logs[OF b]
      note i3 = conjunct1[OF iso[OF st3]]
      have l4: "logs E ?s3 s4"
        using conjunct2[OF bl] unfolding i3
      proof (rule logs_mono)
        fix e :: "cursor_op \<times> isolation \<times> bool"
        assume a: "fst e \<in> {OpNext, OpGetValue} \<and> fst (snd e) = isolation s \<and> snd (snd e)"
        show "E e"
        proof (cases "fst e = OpNext")
          case True
          then have "e = (OpNext, isolation s, True)" using a by (cases e) auto
          then show ?thesis using En[OF False] by simp
        next
          case False
          then show ?thesis by (rule E)
        qed
      qed
      have l4': "isolation s4 = isolation s" "logs E s s4"
        using conjunct1[OF bl] i3 logs_trans[OF conjunct2[OF iso[OF st3]] l4] by simp_all
      show ?thesis
      proof (cases "r3 = 0")
        case False
        then have "s' = s4"
          using run ok sk \<open>\<not> uv_skip_buf s\<close>
          by (simp add: hs_find_upd_value_def al g Let_def b)
        then show ?thesis using l4' by simp
      next
        case True
        then have c: "hs_find_upd_copy s4 = (r, s')"
          using run ok sk \<open>\<not> uv_skip_buf s\<close>
          by (simp add: hs_find_upd_value_def al g Let_def b)
        from copy_steps[OF c, of "{}"] have "isolation s' = isolation s4" "logs E s4 s'"
          by (auto simp: steps_def logs_def)
        with l4' logs_trans[OF l4'(2)] show ?thesis by simp
      qed
    qed
  qed
qed


lemma search_logs:
  assumes run: "hs_find_upd_search X s ts b k = (r, s')"
    and E: "\<And>e. fst e \<noteq> OpNext \<Longrightarrow> E e"
    and En: "\<not> uv_skip_buf s \<Longrightarrow> E (OpNext, isolation s, True)"
  shows "isolation s' = isolation s \<and> logs E s s'"
proof -
  obtain r1 s1 where o: "wt_curhs_open s = (r1, s1)" by (cases "wt_curhs_open s")
  from wt_curhs_open_eq[OF o]
  have e1: "isolation s1 = isolation s" "calls s1 = calls s" "uv_skip_buf s1 = uv_skip_buf s"
    by (auto split: if_splits)
  show ?thesis
  proof (cases "r1 = 0")
    case False
    then have "s' = s1" using run by (simp add: hs_find_upd_search_def o)
    then show ?thesis using e1 by (simp add: logs_same)
  next
    case r1: True
    let ?s2 = "cursor_set_key s1 (hs_pack_key X b k
                 (if ts = WT_TS_NONE then WT_TS_MAX else ts) UINT64_MAX)"
    have e2: "isolation ?s2 = isolation s" "calls ?s2 = calls s" "uv_skip_buf ?s2 = uv_skip_buf s"
      using e1 by (simp_all add: cursor_set_key_def)
    obtain r2 s3 where p: "wt_hs_cursor_search_near_before ?s2 = (r2, s3)"
      by (cases "wt_hs_cursor_search_near_before ?s2")
    note pl = search_near_before_logs[OF p]
    have l3: "logs E s s3"
      by (rule logs_from_same[OF e2(2)]) (rule logs_mono[OF conjunct2[OF conjunct2[OF pl]]], rule E)
    have e3: "isolation s3 = isolation s" "uv_skip_buf s3 = uv_skip_buf s"
      using pl e2 env_rel_fuD(7)[OF conjunct1[OF search_near_before_rel[OF p]]] by simp_all
    show ?thesis
    proof (cases "r2 = 0")
      case False
      then have "s' = s3"
        using run r1 by (auto simp: hs_find_upd_search_def o Let_def p split: if_splits)
      then show ?thesis using l3 e3 by simp
    next
      case True
      then have v: "hs_find_upd_value X s3 = (r, s')"
        using run r1 by (simp add: hs_find_upd_search_def o Let_def p WT_NOTFOUND_def)
      have En3: "\<not> uv_skip_buf s3 \<Longrightarrow> E (OpNext, isolation s3, True)"
        unfolding e3 by (rule En)
      have "isolation s' = isolation s3 \<and> logs E s3 s'"
        by (rule value_logs[where E = E, OF v E En3])
      then show ?thesis using e3 logs_trans[OF l3] by simp
    qed
  qed
qed

text \<open>What the cleanup at lines 335-363 leaves.\<close>

lemma cleanup_eq:
  assumes "hs_find_upd_cleanup (ret, s) = (ret', s')"
  shows "ret' = ret" "calls s' = calls s" "isolation s' = isolation s" "faults s' = faults s"
    "uv_buf s' = uv_buf s" "hs_cursor s' = hs_cursor s" "cursors_open s' = cursors_open s"
    "modifies s' = []" "mod_upd s' = None"
    "upd_live s' = upd_live s - int (length (modifies s)) - (if mod_upd s = None then 0 else 1)"
    "bufs s' = (case orig_hs_value_buf s of
                  Some a \<Rightarrow> (bufs s)(a := None)
                | None \<Rightarrow> (case hs_value s of Some a \<Rightarrow> (bufs s)(a := None) | None \<Rightarrow> bufs s))"
    "uv_type s' = (if ret = 0 \<and> upd_found s then uv_type s else WT_UPDATE_INVALID)"
    "uv_durable_start_ts s' = uv_durable_start_ts s" "on_disk_buf s' = on_disk_buf s"
    "next_addr s' = next_addr s"
proof -
  have m: "mod_upd (wt_free_update_list t) = None" for t
    by (simp add: wt_free_update_list_def split: option.splits)
  define s1 where "s1 = (if orig_hs_value_buf s \<noteq> None
                  then (wt_scr_free s (orig_hs_value_buf s))\<lparr>orig_hs_value_buf := None\<rparr>
                  else (wt_scr_free s (hs_value s))\<lparr>hs_value := None\<rparr>)"
  define s2 where "s2 = hs_find_upd_drain (wt_free_update_list s1)"
  have s2e: "s2 = (wt_free_update_list s1)
      \<lparr>upd_live := upd_live (wt_free_update_list s1)
                     - int (length (modifies (wt_free_update_list s1))), modifies := []\<rparr>"
    unfolding s2_def by (rule drain_nil[OF m])
  have uf: "upd_found s2 = upd_found s"
    by (simp add: s2e wt_free_update_list_def s1_def wt_scr_free_def split: option.splits)
  have ce: "hs_find_upd_cleanup (ret, s)
      = (ret, if ret = 0 \<and> upd_found s2 then s2 else s2\<lparr>uv_type := WT_UPDATE_INVALID\<rparr>)"
    unfolding s2_def s1_def hs_find_upd_cleanup_def by (simp add: Let_def)
  have e: "ret' = ret"
    "s' = (if ret = 0 \<and> upd_found s then s2 else s2\<lparr>uv_type := WT_UPDATE_INVALID\<rparr>)"
    using assms unfolding ce uf by auto
  show "ret' = ret" by (rule e(1))
  show "calls s' = calls s" "isolation s' = isolation s" "faults s' = faults s"
    "uv_buf s' = uv_buf s" "hs_cursor s' = hs_cursor s" "cursors_open s' = cursors_open s"
    "modifies s' = []" "mod_upd s' = None"
    "upd_live s' = upd_live s - int (length (modifies s)) - (if mod_upd s = None then 0 else 1)"
    "bufs s' = (case orig_hs_value_buf s of
                  Some a \<Rightarrow> (bufs s)(a := None)
                | None \<Rightarrow> (case hs_value s of Some a \<Rightarrow> (bufs s)(a := None) | None \<Rightarrow> bufs s))"
    "uv_type s' = (if ret = 0 \<and> upd_found s then uv_type s else WT_UPDATE_INVALID)"
    "uv_durable_start_ts s' = uv_durable_start_ts s" "on_disk_buf s' = on_disk_buf s"
    "next_addr s' = next_addr s"
    unfolding e(2)
    by (auto simp: s2e wt_free_update_list_def s1_def wt_scr_free_def split: option.splits)
qed

text \<open>The two ways through \<^verbatim>\<open>__wt_hs_find_upd\<close>: the early return, or search, cleanup and close.\<close>

definition locals_init :: "fu_state \<Rightarrow> fu_state" where
  "locals_init s = s\<lparr>hs_cursor := False, hs_value := None, orig_hs_value_buf := None,
                      modifies := [], mod_upd := None, upd_found := False\<rparr>"

lemma find_upd_run:
  assumes "wt_hs_find_upd X s ts b key recno = (r, s')"
  shows "(\<exists>f. key = None \<and> r \<noteq> 0 \<and> r \<in> set (faults s) \<and> set f \<subseteq> set (faults s) \<and>
              s' = (locals_init s)\<lparr>faults := f\<rparr>)
       \<or> (\<exists>f k r1 s1. set f \<subseteq> set (faults s) \<and>
              k = (case key of Some k \<Rightarrow> k | None \<Rightarrow> vpack_uint X recno) \<and>
              (key \<noteq> None \<longrightarrow> f = faults s) \<and>
              hs_find_upd_search X ((locals_init s)\<lparr>faults := f\<rparr>) ts b k = (r1, s1) \<and>
              hs_find_upd_close (hs_find_upd_cleanup (r1, s1)) = (r, s'))"
proof (cases key)
  case (Some k)
  obtain r1 s1 where se: "hs_find_upd_search X (locals_init s) ts b k = (r1, s1)"
    by (cases "hs_find_upd_search X (locals_init s) ts b k")
  have i: "(locals_init s)\<lparr>faults := faults s\<rparr> = locals_init s"
    unfolding locals_init_def by (cases s) simp
  have "hs_find_upd_close (hs_find_upd_cleanup (r1, s1)) = (r, s')"
    using assms Some se by (simp add: wt_hs_find_upd_def Let_def locals_init_def)
  then show ?thesis using Some se i by auto
next
  case None
  obtain r0 s0 where f: "fault (locals_init s) = (r0, s0)" by (cases "fault (locals_init s)")
  from fault_eq[OF f] obtain f0 where f0: "s0 = (locals_init s)\<lparr>faults := f0\<rparr>"
    "set f0 \<subseteq> set (faults s)" "r0 = 0 \<or> r0 \<in> set (faults s)"
    by (auto simp: locals_init_def)
  show ?thesis
  proof (cases "r0 = 0")
    case False
    then have "r = r0" "s' = s0"
      using assms None f by (simp_all add: wt_hs_find_upd_def Let_def locals_init_def)
    then show ?thesis using None f0 False by auto
  next
    case True
    obtain r1 s1 where se: "hs_find_upd_search X s0 ts b (vpack_uint X recno) = (r1, s1)"
      by (cases "hs_find_upd_search X s0 ts b (vpack_uint X recno)")
    have "hs_find_upd_close (hs_find_upd_cleanup (r1, s1)) = (r, s')"
      using assms None f True se by (simp add: wt_hs_find_upd_def Let_def locals_init_def)
    then show ?thesis using None se f0 by auto
  qed
qed

lemma close_cleanup_logs:
  assumes "hs_find_upd_close (hs_find_upd_cleanup (r1, s1)) = (r, s')"
  shows "calls s' = calls s1" "isolation s' = isolation s1" "uv_buf s' = uv_buf s1"
proof -
  obtain r2 s2 where c: "hs_find_upd_cleanup (r1, s1) = (r2, s2)"
    by (cases "hs_find_upd_cleanup (r1, s1)")
  note ce = cleanup_eq[OF c]
  have "calls s' = calls s2 \<and> isolation s' = isolation s2 \<and> uv_buf s' = uv_buf s2"
    using assms unfolding c
    by (auto simp: hs_find_upd_close_def split: if_splits prod.splits dest!: cursor_close_eq)
  then show "calls s' = calls s1" "isolation s' = isolation s1" "uv_buf s' = uv_buf s1"
    using ce by simp_all
qed

lemma find_upd_logs:
  assumes run: "wt_hs_find_upd X s ts b key recno = (r, s')"
    and E: "\<And>e. fst e \<noteq> OpNext \<Longrightarrow> E e"
    and En: "\<not> uv_skip_buf s \<Longrightarrow> E (OpNext, isolation s, True)"
  shows "isolation s' = isolation s \<and> logs E s s'"
  using find_upd_run[OF run]
proof (elim disjE exE conjE)
  fix f assume "s' = (locals_init s)\<lparr>faults := f\<rparr>"
  then show ?thesis by (simp add: locals_init_def logs_same)
next
  fix f k r1 s1
  assume se: "hs_find_upd_search X ((locals_init s)\<lparr>faults := f\<rparr>) ts b k = (r1, s1)"
    and cc: "hs_find_upd_close (hs_find_upd_cleanup (r1, s1)) = (r, s')"
  let ?s0 = "(locals_init s)\<lparr>faults := f\<rparr>"
  have s0: "isolation ?s0 = isolation s" "calls ?s0 = calls s" "uv_skip_buf ?s0 = uv_skip_buf s"
    by (simp_all add: locals_init_def)
  have En0: "\<not> uv_skip_buf ?s0 \<Longrightarrow> E (OpNext, isolation ?s0, True)"
    unfolding s0 by (rule En)
  have sl: "isolation s1 = isolation ?s0 \<and> logs E ?s0 s1"
    by (rule search_logs[where E = E, OF se E En0])
  have i1: "isolation s1 = isolation s" by (rule trans[OF conjunct1[OF sl] s0(1)])
  have l1: "logs E s s1" by (rule logs_from_same[OF s0(2) conjunct2[OF sl]])
  have "logs E s s'" by (rule logs_to_same[OF l1 close_cleanup_logs(1)[OF cc]])
  moreover have "isolation s' = isolation s" by (rule trans[OF close_cleanup_logs(2)[OF cc] i1])
  ultimately show ?thesis by simp
qed

text \<open>With \<^verbatim>\<open>skip_buf\<close> set, no path writes the caller's value buffer.\<close>

lemma value_skip_frame:
  assumes run: "hs_find_upd_value X s = (r, s')" and skip: "uv_skip_buf s"
  shows "uv_buf s' = uv_buf s"
proof -
  obtain r1 a s1 where al: "wt_scr_alloc s = (r1, a, s1)" by (cases "wt_scr_alloc s")
  note e1 = env_rel_fuD[OF conjunct1[OF wt_scr_alloc_rel[OF al]]]
  let ?s1 = "s1\<lparr>hs_value := Some a\<rparr>"
  obtain r2 v s2 where g: "cursor_get_value ?s1 = (r2, v, s2)" by (cases "cursor_get_value ?s1")
  note e2 = env_rel_fuD[OF conjunct1[OF cursor_get_value_rel[OF g]]]
  let ?s3 = "(store_hs_value s2 v)\<lparr>durable_timestamp := rec_durable_ts v,
                upd_type := ucast (rec_upd_type_full v), upd_found := True\<rparr>"
  have u2: "uv_buf s1 = uv_buf s" "uv_buf s2 = uv_buf s" "uv_skip_buf s2"
    using e1(3,7) e2(3,7) skip by simp_all
  have u3: "uv_buf (hs_find_upd_report ?s3) = uv_buf s" "uv_skip_buf ?s3"
    using u2 by (simp_all add: hs_find_upd_report_def store_hs_value_def split: option.splits)
  have "s' = s1 \<or> s' = s2 \<or> s' = hs_find_upd_report ?s3"
    using run u3(2) by (auto simp: hs_find_upd_value_def al g Let_def split: if_splits)
  then show ?thesis using u2 u3 by auto
qed

lemma search_skip_frame:
  assumes run: "hs_find_upd_search X s ts b k = (r, s')" and skip: "uv_skip_buf s"
  shows "uv_buf s' = uv_buf s"
proof -
  obtain r1 s1 where o: "wt_curhs_open s = (r1, s1)" by (cases "wt_curhs_open s")
  from wt_curhs_open_eq[OF o]
  have e1: "uv_buf s1 = uv_buf s" "uv_skip_buf s1 = uv_skip_buf s"
    by (auto split: if_splits)
  show ?thesis
  proof (cases "r1 = 0")
    case False
    then have "s' = s1" using run by (simp add: hs_find_upd_search_def o)
    then show ?thesis using e1 by simp
  next
    case r1: True
    let ?s2 = "cursor_set_key s1 (hs_pack_key X b k
                 (if ts = WT_TS_NONE then WT_TS_MAX else ts) UINT64_MAX)"
    have e2: "uv_buf ?s2 = uv_buf s" "uv_skip_buf ?s2 = uv_skip_buf s"
      using e1 by (simp_all add: cursor_set_key_def)
    obtain r2 s3 where p: "wt_hs_cursor_search_near_before ?s2 = (r2, s3)"
      by (cases "wt_hs_cursor_search_near_before ?s2")
    note pe = env_rel_fuD[OF conjunct1[OF search_near_before_rel[OF p]]]
    have e3: "uv_buf s3 = uv_buf s" "uv_skip_buf s3"
      using pe(3,7) e2 skip by simp_all
    show ?thesis
    proof (cases "r2 = 0")
      case False
      then have "s' = s3"
        using run r1 by (auto simp: hs_find_upd_search_def o Let_def p split: if_splits)
      then show ?thesis using e3 by simp
    next
      case True
      then have v: "hs_find_upd_value X s3 = (r, s')"
        using run r1 by (simp add: hs_find_upd_search_def o Let_def p WT_NOTFOUND_def)
      from value_skip_frame[OF v e3(2)] e3(1) show ?thesis by simp
    qed
  qed
qed

lemma find_upd_skip_frame:
  assumes run: "wt_hs_find_upd X s ts b key recno = (r, s')" and skip: "uv_skip_buf s"
  shows "uv_buf s' = uv_buf s"
  using find_upd_run[OF run]
proof (elim disjE exE conjE)
  fix f assume "s' = (locals_init s)\<lparr>faults := f\<rparr>"
  then show ?thesis by (simp add: locals_init_def)
next
  fix f k r1 s1
  assume se: "hs_find_upd_search X ((locals_init s)\<lparr>faults := f\<rparr>) ts b k = (r1, s1)"
    and cc: "hs_find_upd_close (hs_find_upd_cleanup (r1, s1)) = (r, s')"
  have "uv_skip_buf ((locals_init s)\<lparr>faults := f\<rparr>)" using skip by (simp add: locals_init_def)
  from search_skip_frame[OF se this] have "uv_buf s1 = uv_buf s" by (simp add: locals_init_def)
  then show ?thesis using close_cleanup_logs(3)[OF cc] by simp
qed

text \<open>
  \<open>outcome N s r s'\<close>: the code \<open>r\<close> returned from \<open>s\<close> is success, one of the codes \<open>N\<close>
  the operation reports by itself, or a failure code scheduled in \<open>s\<close>; and \<open>s'\<close> has no
  scheduled code that \<open>s\<close> had not.
\<close>

definition outcome :: "int set \<Rightarrow> 'a env_scheme \<Rightarrow> int \<Rightarrow> 'a env_scheme \<Rightarrow> bool" where
  "outcome N s r s' \<longleftrightarrow>
     set (faults s') \<subseteq> set (faults s) \<and> (r = 0 \<or> r \<in> N \<or> r \<in> set (faults s))"

lemma outcome_refl [simp]: "outcome N s 0 s"
  by (simp add: outcome_def)




lemma outcome_mono: "outcome N s r s' \<Longrightarrow> N \<subseteq> M \<Longrightarrow> outcome M s r s'"
  unfolding outcome_def by blast

lemma fault_out: "fault s = (r, s') \<Longrightarrow> outcome N s r s'"
  unfolding outcome_def by (auto dest!: fault_eq)

lemma logged_fault_out: "fault (logged op s) = (r, s') \<Longrightarrow> outcome N s r s'"
  by (drule fault_out[where N = N]) (simp add: outcome_def)















section \<open>Properties of the positioning\<close>

text \<open>
  C1. On a store in ascending raw-key order, and when no collaborator fails,
  \<^verbatim>\<open>__hs_cursor_position_int\<close> leaves the cursor on the record whose raw key is the
  greatest one at or below the packed search key (table id, key, timestamp, largest
  counter), and returns not-found exactly when no record has a key at or below it.
\<close>

theorem hs_cursor_position_int_greatest_at_or_before:
  assumes srt: "sorted_wrt (<) (map fst (hs s))" and nf: "faults s = []"
  shows "case hs_cursor_position_int X s btree_id key timestamp user_srch_key of (ret, s') \<Rightarrow>
      hs s' = hs s \<and>
      (if \<exists>e\<in>set (hs s). fst e \<le> hs_pack_key X btree_id key timestamp UINT64_MAX
       then ret = 0 \<and>
            (\<exists>i<length (hs s). cur_pos s' = Some i \<and> cur_key s' = fst (hs s ! i)
               \<and> fst (hs s ! i) \<le> hs_pack_key X btree_id key timestamp UINT64_MAX
               \<and> (\<forall>e\<in>set (hs s). fst e \<le> hs_pack_key X btree_id key timestamp UINT64_MAX
                      \<longrightarrow> fst e \<le> fst (hs s ! i)))
       else ret = WT_NOTFOUND)"
proof -
  let ?k = "hs_pack_key X btree_id key timestamp UINT64_MAX"
  obtain a s1 where al: "(case user_srch_key of None \<Rightarrow> wt_scr_alloc s | Some a \<Rightarrow> (0, a, s)) = (0, a, s1)"
    and s1: "hs s1 = hs s" "faults s1 = []"
    using nf by (cases user_srch_key) (simp_all add: wt_scr_alloc_nil)
  let ?s2 = "cursor_set_key s1 ?k"
  have s2: "hs ?s2 = hs s" "faults ?s2 = []" "cur_key ?s2 = ?k"
    using s1 by (simp_all add: cursor_set_key_def)
  have srt2: "sorted_wrt (<) (map fst (hs ?s2))" using srt s2(1) by simp
  show ?thesis
  proof (cases "\<exists>e\<in>set (hs s). fst e \<le> ?k")
    case True
    then have "\<exists>j<length (hs ?s2). fst (hs ?s2 ! j) \<le> cur_key ?s2"
      unfolding s2 by (simp add: some_key_at_or_below)
    from position_search_found[OF srt2 s2(2) this, of a]
    obtain i c where ic: "i < length (hs s)" "fst (hs s ! i) \<le> ?k"
      "\<forall>j<length (hs s). fst (hs s ! j) \<le> ?k \<longrightarrow> j \<le> i"
      "hs_position_search ?s2 a
         = (0, ?s2\<lparr>bufs := (bufs ?s2)(a \<mapsto> cur_key ?s2), cur_pos := Some i,
                  cur_key := fst (hs ?s2 ! i), calls := c\<rparr>)"
      unfolding s2 by blast
    have great: "\<forall>e\<in>set (hs s). fst e \<le> ?k \<longrightarrow> fst e \<le> fst (hs s ! i)"
      using srt ic(1,3) by (rule greatest_index_greatest_key)
    show ?thesis
      using True ic(1,2) great s2(1)
      by (auto simp: hs_cursor_position_int_def al ic(4) wt_scr_free_def)
  next
    case False
    then have "\<forall>j<length (hs ?s2). cur_key ?s2 < fst (hs ?s2 ! j)"
      unfolding s2 by (auto simp: some_key_at_or_below not_le)
    from position_search_none[OF s2(2) this, of a]
    obtain c q where cq: "hs_position_search ?s2 a
         = (WT_NOTFOUND, ?s2\<lparr>bufs := (bufs ?s2)(a \<mapsto> cur_key ?s2), cur_pos := None,
                               cur_key := q, calls := c\<rparr>)"
      by blast
    show ?thesis
      using False s2(1)
      by (auto simp: hs_cursor_position_int_def al cq wt_scr_free_def)
  qed
qed

theorem hs_cursor_position_int_greatest_at_or_before_witness:
  "sorted_wrt (<) (map fst demo_store)
   \<and> fst (hs_cursor_position_int demo (demo_state demo_store [] ''abc'' False) 1 ''K'' 25 None) = 0
   \<and> cur_pos (snd (hs_cursor_position_int demo (demo_state demo_store [] ''abc'' False) 1 ''K'' 25 None)) = Some 1
   \<and> fst (hs_cursor_position_int demo (demo_state demo_store [] ''abc'' False) 1 ''K'' 5 None) = WT_NOTFOUND"
proof -
  let ?s = "demo_state demo_store [] ''abc'' False"
  have h: "hs ?s = demo_store" "faults ?s = []" by (simp_all add: demo_state_def)
  have srt: "sorted_wrt (<) (map fst (hs ?s))" unfolding h by code_simp
  have ex: "\<exists>e\<in>set (hs ?s). fst e \<le> hs_pack_key demo 1 ''K'' 25 UINT64_MAX"
    unfolding h by code_simp
  have nex: "\<not> (\<exists>e\<in>set (hs ?s). fst e \<le> hs_pack_key demo 1 ''K'' 5 UINT64_MAX)"
    unfolding h by code_simp
  have pos: "cur_pos (snd (hs_cursor_position_int demo ?s 1 ''K'' 25 None)) = Some 1"
    by code_simp
  show ?thesis
    using hs_cursor_position_int_greatest_at_or_before [OF srt h(2), of demo 1 "''K''" 25 None]
      hs_cursor_position_int_greatest_at_or_before [OF srt h(2), of demo 1 "''K''" 5 None]
      ex nex srt pos
    by (auto simp: h split: prod.splits)
qed

section \<open>Properties of the pinned-page search\<close>

text \<open>
  C8. When the cursor carries a pinned page and the search confined to it succeeds, the
  pinned result is kept exactly when the leaf was found and the match is exact or the slot
  is neither the page's first nor its last; it is then passed on as it is. In every other
  case the cursor is reset and the result is that of the search from the root on the reset
  cursor.
\<close>

theorem hs_row_search_pinned_page:
  assumes "cbt_ref hs_cbt = Some leaf"
    and "row_search B hs_cbt srch_key for_insert (Some leaf) = (0, found, c1)"
  shows "wt_hs_row_search B hs_cbt srch_key for_insert =
     (if found \<and> (cbt_compare c1 = 0 \<or> (cbt_slot c1 \<noteq> 0 \<and> cbt_slot c1 \<noteq> ref_entries c1 - 1))
      then hs_row_search_return B for_insert (0, c1)
      else hs_row_search_return B for_insert
             (case row_search B (cursor_reset B c1) srch_key for_insert None of
                (ret2, found2, c2) \<Rightarrow> (ret2, c2)))"
  using assms by (auto simp: wt_hs_row_search_def)

theorem hs_row_search_pinned_page_witness:
  "wt_hs_row_search (demo_row_ops 1 3) demo_cbt ''k'' False
     = (0, demo_cbt\<lparr>cbt_compare := 1, cbt_slot := 3\<rparr>)
   \<and> wt_hs_row_search (demo_row_ops 1 9) demo_cbt ''k'' False
     = (0, demo_cbt\<lparr>cbt_ref := None, cbt_compare := 0, cbt_slot := 7\<rparr>)"
  using hs_row_search_pinned_page [of demo_cbt "\<lparr>page_entries = 10\<rparr>" "demo_row_ops 1 3" "''k''" False
      True "demo_cbt\<lparr>cbt_compare := 1, cbt_slot := 3\<rparr>"]
    hs_row_search_pinned_page [of demo_cbt "\<lparr>page_entries = 10\<rparr>" "demo_row_ops 1 9" "''k''" False
      True "demo_cbt\<lparr>cbt_compare := 1, cbt_slot := 9\<rparr>"]
  by (simp add: demo_row_ops_def demo_cbt_def hs_row_search_return_def ref_entries_def)

section \<open>Properties of the resolver\<close>

text \<open>
  C4. A resolve call whose read timestamp is the "none" sentinel returns the same code and
  the same state (payload, kind, durable start timestamp and everything else) as one whose
  read timestamp is the maximum timestamp.
\<close>

theorem hs_find_upd_ts_none_is_ts_max:
  "wt_hs_find_upd X s WT_TS_NONE btree_id key recno
     = wt_hs_find_upd X s WT_TS_MAX btree_id key recno"
proof -
  have search: "hs_find_upd_search X s' WT_TS_NONE btree_id k
      = hs_find_upd_search X s' WT_TS_MAX btree_id k" for s' k
    by (simp add: hs_find_upd_search_def)
  show ?thesis
    unfolding wt_hs_find_upd_def search by (rule refl)
qed

text \<open>
  C2, as the code has it, for the records of the searched table id and record key. The
  deltas are reverse deltas and the base lies after them: when the newest record at or
  before the search key is a modify \<open>t\<close> of the searched key, followed in key order by
  modify records \<open>ms\<close> and then by a record \<open>b\<close> of the same key that is not a modify, the
  resolver returns \<open>b\<close>'s value with the deltas applied from the one nearest to \<open>b\<close> back to
  \<open>t\<close>'s, which is applied last (each pushed on the vector while walking with
  \<^verbatim>\<open>next\<close>, then popped). The kind reported is \<open>b\<close>'s and the durable timestamp is
  \<open>t\<close>'s. Records before \<open>t\<close> play no part, so a target in the middle of a run of modifies
  gets only its own delta and the later ones. When every stored record lies above the
  search key (a read timestamp older than the oldest record), the resolver returns success
  with the result marked invalid and the caller's buffer untouched.
\<close>

theorem hs_find_upd_delta_chain:
  assumes srt: "sorted_wrt (<) (map fst (hs s))" and nf: "faults s = []"
    and noskip: "\<not> uv_skip_buf s"
  shows
    "(hs s = pre @ map (hs_entry X btree_id k) (t # ms @ [b]) @ post
        \<and> fst (hs_entry X btree_id k t)
             \<le> hs_pack_key X btree_id k (if ts = WT_TS_NONE then WT_TS_MAX else ts) UINT64_MAX
        \<and> (\<forall>e\<in>set (map (hs_entry X btree_id k) (ms @ [b]) @ post).
              hs_pack_key X btree_id k (if ts = WT_TS_NONE then WT_TS_MAX else ts) UINT64_MAX
                < fst e)
        \<and> is_modify (hs_entry X btree_id k t)
        \<and> (\<forall>m\<in>set ms. is_modify (hs_entry X btree_id k m))
        \<and> \<not> is_modify (hs_entry X btree_id k b)
      \<longrightarrow> (\<exists>s'. wt_hs_find_upd X s ts btree_id (Some k) recno = (0, s')
            \<and> uv_buf s' = foldr (\<lambda>d v. modify_apply_item X (value_format s) v d)
                             (map (rec_value \<circ> snd \<circ> snd) (t # ms)) (rec_value (snd (snd b)))
            \<and> uv_type s' = ucast (rec_upd_type_full (snd (snd b)))
            \<and> uv_durable_start_ts s' = rec_durable_ts (snd (snd t))
            \<and> uv_start_txn s' = WT_TXN_NONE))
     \<and> ((\<forall>e\<in>set (hs s).
            hs_pack_key X btree_id k (if ts = WT_TS_NONE then WT_TS_MAX else ts) UINT64_MAX
              < fst e)
      \<longrightarrow> (\<exists>s'. wt_hs_find_upd X s ts btree_id (Some k) recno = (0, s')
            \<and> uv_type s' = WT_UPDATE_INVALID \<and> uv_buf s' = uv_buf s))"
proof (intro conjI impI)
  let ?K = "hs_pack_key X btree_id k (if ts = WT_TS_NONE then WT_TS_MAX else ts) UINT64_MAX"
  let ?h = "hs_entry X btree_id k"
  assume a: "hs s = pre @ map ?h (t # ms @ [b]) @ post
        \<and> fst (?h t) \<le> ?K
        \<and> (\<forall>e\<in>set (map ?h (ms @ [b]) @ post). ?K < fst e)
        \<and> is_modify (?h t)
        \<and> (\<forall>m\<in>set ms. is_modify (?h m))
        \<and> \<not> is_modify (?h b)"
  have shape: "hs s = pre @ ?h t # map ?h ms @ ?h b # post" using a by simp
  have le: "fst (?h t) \<le> ?K" using a by simp
  have gt: "\<forall>e\<in>set (map ?h ms @ ?h b # post). ?K < fst e" using a by simp
  have mods: "is_modify (?h t)" "\<forall>e\<in>set (map ?h ms). is_modify e" "\<not> is_modify (?h b)"
    using a by simp_all
  have v: "map (rec_value \<circ> snd) (?h t # map ?h ms) = map (rec_value \<circ> snd \<circ> snd) (t # ms)"
    by (simp add: hs_entry_def)
  have sb: "snd (?h b) = snd (snd b)" "snd (?h t) = snd (snd t)" by (simp_all add: hs_entry_def)
  from find_upd_chain_result[OF srt nf shape le gt noskip mods, of recno]
  show "\<exists>s'. wt_hs_find_upd X s ts btree_id (Some k) recno = (0, s')
            \<and> uv_buf s' = foldr (\<lambda>d v. modify_apply_item X (value_format s) v d)
                             (map (rec_value \<circ> snd \<circ> snd) (t # ms)) (rec_value (snd (snd b)))
            \<and> uv_type s' = ucast (rec_upd_type_full (snd (snd b)))
            \<and> uv_durable_start_ts s' = rec_durable_ts (snd (snd t))
            \<and> uv_start_txn s' = WT_TXN_NONE"
    unfolding v sb .
next
  assume "\<forall>e\<in>set (hs s).
            hs_pack_key X btree_id k (if ts = WT_TS_NONE then WT_TS_MAX else ts) UINT64_MAX
              < fst e"
  from find_upd_none_result[OF nf this, of recno]
  show "\<exists>s'. wt_hs_find_upd X s ts btree_id (Some k) recno = (0, s')
            \<and> uv_type s' = WT_UPDATE_INVALID \<and> uv_buf s' = uv_buf s"
    by blast
qed

theorem hs_find_upd_delta_chain_witness:
  "fst (wt_hs_find_upd demo (demo_state demo_store_rev [] ''zzz'' False) 15 1 (Some ''K'') 0) = 0
   \<and> uv_buf (snd (wt_hs_find_upd demo (demo_state demo_store_rev [] ''zzz'' False) 15 1 (Some ''K'') 0))
       = ''abc''
   \<and> fst (wt_hs_find_upd demo (demo_state demo_store [] ''abc'' False) 5 1 (Some ''K'') 0) = 0
   \<and> uv_type (snd (wt_hs_find_upd demo (demo_state demo_store [] ''abc'' False) 5 1 (Some ''K'') 0))
       = WT_UPDATE_INVALID
   \<and> uv_buf (snd (wt_hs_find_upd demo (demo_state demo_store [] ''abc'' False) 5 1 (Some ''K'') 0))
       = []"
proof -
  let ?s = "demo_state demo_store_rev [] ''zzz'' False"
  let ?t = "(10, 0, demo_rec 10 WT_UPDATE_MODIFY [CHR 0x00, CHR 0x01, CHR ''a''])"
  let ?m = "(20, 0, demo_rec 20 WT_UPDATE_MODIFY [CHR 0x03, CHR 0x01])"
  let ?b = "(30, 0, demo_rec 30 WT_UPDATE_STANDARD ''xbc!'')"
  let ?h = "hs_entry demo 1 ''K''"
  have h: "hs ?s = demo_store_rev" "faults ?s = []" "\<not> uv_skip_buf ?s" "value_format ?s = ''u''"
    by (simp_all add: demo_state_def)
  have srt: "sorted_wrt (<) (map fst (hs ?s))" unfolding h by code_simp
  have shape: "hs ?s = [] @ map ?h (?t # [?m] @ [?b]) @ []"
    unfolding h by (simp add: demo_store_rev_def hs_entry_def demo_def)
  have le: "fst (?h ?t) \<le> hs_pack_key demo 1 ''K'' (if 15 = WT_TS_NONE then WT_TS_MAX else 15) UINT64_MAX"
    by code_simp
  have gt: "\<forall>e\<in>set (map ?h ([?m] @ [?b]) @ []).
      hs_pack_key demo 1 ''K'' (if 15 = WT_TS_NONE then WT_TS_MAX else 15) UINT64_MAX < fst e"
    by code_simp
  have mods: "is_modify (?h ?t)" "\<forall>m\<in>set [?m]. is_modify (?h m)" "\<not> is_modify (?h ?b)"
    by code_simp+
  have val: "foldr (\<lambda>d v. modify_apply_item demo ''u'' v d)
      (map (rec_value \<circ> snd \<circ> snd) (?t # [?m])) (rec_value (snd (snd ?b))) = ''abc''"
    by code_simp
  let ?s2 = "demo_state demo_store [] ''abc'' False"
  have h2: "hs ?s2 = demo_store" "faults ?s2 = []" "\<not> uv_skip_buf ?s2" "uv_buf ?s2 = []"
    by (simp_all add: demo_state_def)
  have srt2: "sorted_wrt (<) (map fst (hs ?s2))" unfolding h2 by code_simp
  have none: "\<forall>e\<in>set (hs ?s2).
      hs_pack_key demo 1 ''K'' (if 5 = WT_TS_NONE then WT_TS_MAX else 5) UINT64_MAX < fst e"
    unfolding h2 by code_simp
  from conjunct1[OF hs_find_upd_delta_chain [OF srt h(2,3),
        of "[]" demo 1 "''K''" ?t "[?m]" ?b "[]" 15 0]]
    shape le gt mods
  have p1: "\<exists>s'. wt_hs_find_upd demo ?s 15 1 (Some ''K'') 0 = (0, s') \<and> uv_buf s' = ''abc''"
    unfolding h(4) val by blast
  from conjunct2[OF hs_find_upd_delta_chain [OF srt2 h2(2,3),
        of "[]" demo 1 "''K''" ?t "[?m]" ?b "[]" 5 0]]
    none
  have p2: "\<exists>s'. wt_hs_find_upd demo ?s2 5 1 (Some ''K'') 0 = (0, s')
      \<and> uv_type s' = WT_UPDATE_INVALID \<and> uv_buf s' = []"
    unfolding h2(4) by blast
  from p1 p2 show ?thesis by auto
qed

text \<open>
  On the scenario of the spec (a standard \<open>abc\<close> at 10, then modifies at 20 and 30) the
  resolver never reads the record at 10: it walks forward from the modify it found, runs
  off the store and falls back to the caller's on-disk value. With \<open>abc\<close> on disk, reading
  at 25 gives \<open>xbc!\<close> and reading at 30 gives \<open>abc!\<close>; with \<open>xbc\<close> on disk, reading at 25
  still gives \<open>xbc!\<close>. The spec expects \<open>xbc\<close> at 25 and \<open>xbc!\<close> at 30.
\<close>

theorem hs_find_upd_scenario_counterexample:
  "uv_buf (snd (wt_hs_find_upd demo (demo_state demo_store [] ''abc'' False) 25 1 (Some ''K'') 0))
     = ''xbc!''
   \<and> uv_buf (snd (wt_hs_find_upd demo (demo_state demo_store [] ''abc'' False) 25 1 (Some ''K'') 0))
     \<noteq> ''xbc''
   \<and> uv_buf (snd (wt_hs_find_upd demo (demo_state demo_store [] ''abc'' False) 30 1 (Some ''K'') 0))
     = ''abc!''
   \<and> uv_buf (snd (wt_hs_find_upd demo (demo_state demo_store [] ''xbc'' False) 25 1 (Some ''K'') 0))
     = ''xbc!''"
  by code_simp

text \<open>
  C3. When the newest record at or before the search key is a modify and every record
  after it is a modify too, the walk runs off the store: the caller's on-disk buffer is the
  base the pending deltas are applied to (in place, so the buffer then holds the result),
  and the kind returned is standard.
\<close>

theorem hs_find_upd_on_disk_fallback:
  assumes srt: "sorted_wrt (<) (map fst (hs s))" and nf: "faults s = []"
    and shape: "hs s = pre @ t # ms"
    and le: "fst t \<le> hs_pack_key X btree_id k
                (if ts = WT_TS_NONE then WT_TS_MAX else ts) UINT64_MAX"
    and gt: "\<forall>e\<in>set ms. hs_pack_key X btree_id k
                (if ts = WT_TS_NONE then WT_TS_MAX else ts) UINT64_MAX < fst e"
    and noskip: "\<not> uv_skip_buf s"
    and mods: "is_modify t" "\<forall>e\<in>set ms. is_modify e"
    and disk: "bufs s (on_disk_buf s) = Some D" "on_disk_buf s < next_addr s"
  shows "\<exists>s'. wt_hs_find_upd X s ts btree_id (Some k) recno = (0, s')
      \<and> uv_buf s' = foldr (\<lambda>d v. modify_apply_item X (value_format s) v d)
                       (map (rec_value \<circ> snd) (t # ms)) D
      \<and> uv_type s' = WT_UPDATE_STANDARD
      \<and> uv_durable_start_ts s' = rec_durable_ts (snd t)
      \<and> bufs s' (on_disk_buf s) = Some (uv_buf s')"
proof -
  from find_upd_positioned[OF srt nf shape le gt]
  obtain c where red: "wt_hs_find_upd X s ts btree_id (Some k) recno =
     hs_find_upd_close (hs_find_upd_cleanup (hs_find_upd_value X (positioned s (length pre) c)))"
    by blast
  define P where "P = positioned s (length pre) c"
  define R where "R = (value_read P (length pre))\<lparr>cur_read_committed := True\<rparr>"
  let ?a = "Suc (next_addr s)"
  let ?od = "on_disk_buf s"
  have t: "length pre < length (hs s)" "hs s ! length pre = t" using shape by simp_all
  have oda: "?od \<noteq> ?a" "?od \<noteq> next_addr s" using disk(2) by simp_all
  have P: "faults P = []" "cur_pos P = Some (length pre)" "hs P = hs s" "\<not> uv_skip_buf P"
    using nf noskip by (simp_all add: P_def)
  have R: "faults R = []" "cur_pos R = Some (length pre)" "hs R = pre @ t # ms"
    "upd_type R = WT_UPDATE_MODIFY" "hs_value R = Some ?a" "modifies R = []"
    "hs_value_data R = rec_value (snd t)" "value_format R = value_format s"
    "on_disk_buf R = ?od" "bufs R ?od = Some D"
    using nf shape mods(1) t oda disk(1)
    by (simp_all add: R_def P_def is_modify_def hs_value_data_def item_data_def)
  from walk_to_end[OF R(1,2,3) mods(2) R(4,5)]
  obtain c' q B where B: "\<forall>x. x \<noteq> ?a \<longrightarrow> B x = bufs R x"
    and w: "hs_find_upd_walk R =
      (0, R\<lparr>calls := c', cur_pos := None, cur_key := q, bufs := B,
             upd_live := upd_live R + 1 + int (length ms),
             modifies := rev (map (rec_value \<circ> snd) ms) @ hs_value_data R # modifies R,
             mod_upd := None, upd_type := WT_UPDATE_STANDARD, orig_hs_value_buf := Some ?a,
             hs_value := Some (on_disk_buf R)\<rparr>)"
    by blast
  define W where "W = R\<lparr>calls := c', cur_pos := None, cur_key := q, bufs := B,
             upd_live := upd_live R + 1 + int (length ms),
             modifies := rev (map (rec_value \<circ> snd) ms) @ hs_value_data R # modifies R,
             mod_upd := None, upd_type := WT_UPDATE_STANDARD, orig_hs_value_buf := Some ?a,
             hs_value := Some (on_disk_buf R)\<rparr>"
  have W: "faults W = []" "hs_value W = Some ?od" "bufs W ?od = Some D"
    "mod_upd W = None" "value_format W = value_format s"
    "modifies W = rev (map (rec_value \<circ> snd) ms) @ [rec_value (snd t)]"
    using R B oda by (simp_all add: W_def)
  define Q where "Q = W\<lparr>bufs := (bufs W)(?od \<mapsto> foldl (modify_apply_item X (value_format W))
                 D (modifies W)),
             upd_live := upd_live W - int (length (modifies W)), modifies := []\<rparr>"
  have sq: "hs_find_upd_squash X W = (0, Q)"
    unfolding Q_def using W(1-4) by (rule squash_nil)
  have fold: "foldl (modify_apply_item X (value_format s)) D
        (rev (map (rec_value \<circ> snd) ms) @ [rec_value (snd t)])
      = foldr (\<lambda>d v. modify_apply_item X (value_format s) v d)
          (map (rec_value \<circ> snd) (t # ms)) D"
    by (simp add: foldl_conv_foldr)
  have hvQ: "hs_value_data Q = foldr (\<lambda>d v. modify_apply_item X (value_format s) v d)
          (map (rec_value \<circ> snd) (t # ms)) D"
  proof -
    have "hs_value_data Q = foldl (modify_apply_item X (value_format W)) D (modifies W)"
      by (simp add: Q_def hs_value_data_def item_data_def W(2))
    then show ?thesis unfolding W(5,6) by (simp only: fold)
  qed
  have Q: "faults Q = []" "mod_upd Q = None" "modifies Q = []" "upd_found Q" "hs_cursor Q"
    "uv_durable_start_ts (hs_find_upd_report Q) = rec_durable_ts (snd t)"
    "uv_type (hs_find_upd_report Q) = WT_UPDATE_STANDARD"
    "orig_hs_value_buf Q = Some ?a" "bufs Q ?od = Some (hs_value_data Q)"
    using nf t
    by (simp_all add: Q_def W_def R_def P_def hs_find_upd_report_def hs_value_data_def
        item_data_def)
  define F where "F = hs_find_upd_report (Q\<lparr>uv_buf := hs_value_data Q\<rparr>)"
  have v: "hs_find_upd_value X P = (0, F)"
    unfolding value_stage[OF P(1,2), unfolded P(3), OF t(1)] R_def[symmetric]
    using P(4) mods(1) t(2)
    by (simp add: w W_def[symmetric] sq wt_buf_set_upd_value_nil Q(1) F_def)
  have F: "faults F = []" "mod_upd F = None" "modifies F = []" "upd_found F" "hs_cursor F"
    "uv_buf F = hs_value_data Q"
    "uv_durable_start_ts F = rec_durable_ts (snd t)"
    "uv_type F = WT_UPDATE_STANDARD"
    "orig_hs_value_buf F = Some ?a" "bufs F ?od = Some (hs_value_data Q)"
    using Q by (simp_all add: F_def hs_find_upd_report_def)
  from cleanup_close_found[OF F(1-5)]
  obtain s' where s': "hs_find_upd_close (hs_find_upd_cleanup (0, F)) = (0, s')"
    "uv_buf s' = uv_buf F" "uv_type s' = uv_type F"
    "uv_durable_start_ts s' = uv_durable_start_ts F"
    "bufs s' = (case orig_hs_value_buf F of
                     Some a \<Rightarrow> (bufs F)(a := None)
                   | None \<Rightarrow> (case hs_value F of Some a \<Rightarrow> (bufs F)(a := None) | None \<Rightarrow> bufs F))"
    by blast
  have od: "bufs s' ?od = Some (uv_buf s')"
    unfolding s'(5) s'(2) F(6) F(9) using oda F(10) by simp
  show ?thesis
    unfolding red P_def[symmetric] v
    by (intro exI[of _ s'] conjI s'(1) od) (simp_all only: s'(2-4) F(6-8) hvQ)
qed

theorem hs_find_upd_on_disk_fallback_witness:
  "fst (wt_hs_find_upd demo (demo_state demo_store [] ''abc'' False) 25 1 (Some ''K'') 0) = 0
   \<and> uv_buf (snd (wt_hs_find_upd demo (demo_state demo_store [] ''abc'' False) 25 1 (Some ''K'') 0))
       = ''xbc!''
   \<and> uv_type (snd (wt_hs_find_upd demo (demo_state demo_store [] ''abc'' False) 25 1 (Some ''K'') 0))
       = WT_UPDATE_STANDARD"
proof -
  let ?s = "demo_state demo_store [] ''abc'' False"
  let ?p = "(demo_pack_key 1 ''K'' 10 0, demo_rec 10 WT_UPDATE_STANDARD ''abc'')"
  let ?t = "(demo_pack_key 1 ''K'' 20 0, demo_rec 20 WT_UPDATE_MODIFY [CHR 0x00, CHR 0x01, CHR ''x''])"
  let ?m = "(demo_pack_key 1 ''K'' 30 0, demo_rec 30 WT_UPDATE_MODIFY [CHR 0x03, CHR 0x00, CHR ''!''])"
  have h: "hs ?s = demo_store" "faults ?s = []" "\<not> uv_skip_buf ?s" "value_format ?s = ''u''"
    "bufs ?s (on_disk_buf ?s) = Some ''abc''" "on_disk_buf ?s < next_addr ?s"
    by (simp_all add: demo_state_def)
  have srt: "sorted_wrt (<) (map fst (hs ?s))" unfolding h by code_simp
  have shape: "hs ?s = [?p] @ ?t # [?m]" unfolding h by (simp add: demo_store_def)
  have le: "fst ?t \<le> hs_pack_key demo 1 ''K'' (if 25 = WT_TS_NONE then WT_TS_MAX else 25) UINT64_MAX"
    by code_simp
  have gt: "\<forall>e\<in>set [?m].
      hs_pack_key demo 1 ''K'' (if 25 = WT_TS_NONE then WT_TS_MAX else 25) UINT64_MAX < fst e"
    by code_simp
  have mods: "is_modify ?t" "\<forall>e\<in>set [?m]. is_modify e"
    by code_simp+
  have val: "foldr (\<lambda>d v. modify_apply_item demo ''u'' v d)
      (map (rec_value \<circ> snd) (?t # [?m])) ''abc'' = ''xbc!''"
    by code_simp
  from hs_find_upd_on_disk_fallback [OF srt h(2) shape le gt h(3) mods h(5,6), of 0]
  show ?thesis unfolding h(4) val by auto
qed

text \<open>
  C10. The walk moves the cursor with \<^verbatim>\<open>next\<close> only. Started on a modify record \<open>i\<close>,
  a walk that succeeds ends either on a record \<open>j\<close> after \<open>i\<close>, at a strictly greater raw
  key, which is the first record after \<open>i\<close> that is not a modify and whose value and type
  are the ones left in \<^verbatim>\<open>hs_value\<close> and \<^verbatim>\<open>upd_type\<close> as the base; or past the last
  record, every record from \<open>i\<close> on being a modify, with the on-disk buffer as the base.
  No record before \<open>i\<close> is visited: the only cursor calls are \<^verbatim>\<open>next\<close> and
  \<^verbatim>\<open>get_value\<close>.
\<close>

theorem hs_find_upd_walk_advances_with_next:
  assumes run: "hs_find_upd_walk s = (0, s')"
    and nf: "WT_NOTFOUND \<notin> set (faults s)"
    and srt: "sorted_wrt (<) (map fst (hs s))"
    and rd: "reading s i a" and m: "is_modify (hs s ! i)"
  shows "steps {OpNext, OpGetValue} s s' \<and>
     (case cur_pos s' of
        Some j \<Rightarrow> i < j \<and> j < length (hs s) \<and> fst (hs s ! i) < fst (hs s ! j) \<and>
                  \<not> is_modify (hs s ! j) \<and> (\<forall>l. i \<le> l \<and> l < j \<longrightarrow> is_modify (hs s ! l)) \<and>
                  hs_value s' = Some a \<and> bufs s' a = Some (rec_value (snd (hs s ! j))) \<and>
                  upd_type s' = ucast (rec_upd_type_full (snd (hs s ! j)))
      | None \<Rightarrow> (\<forall>l. i \<le> l \<and> l < length (hs s) \<longrightarrow> is_modify (hs s ! l)) \<and>
                hs_value s' = Some (on_disk_buf s) \<and> upd_type s' = WT_UPDATE_STANDARD)"
proof -
  note w = walk_forward[OF run refl nf rd]
  have st: "steps {OpNext, OpGetValue} s s'" using run by (rule walk_steps)
  show ?thesis
  proof (cases "cur_pos s'")
    case None
    then show ?thesis using w st by simp
  next
    case (Some j)
    then have j: "i \<le> j" "reading s' j a" "\<not> is_modify (hs s ! j)"
      "\<forall>l. i \<le> l \<and> l < j \<longrightarrow> is_modify (hs s ! l)" "hs s' = hs s"
      using w by simp_all
    have ij: "i < j" using j(1,3) m by (cases "i = j") auto
    have jl: "j < length (hs s)" using j(2,5) by (simp add: reading_def)
    have "fst (hs s ! i) < fst (hs s ! j)"
      using srt ij jl by (simp add: sorted_wrt_iff_nth_less)
    then show ?thesis
      using Some st ij jl j by (simp add: reading_def)
  qed
qed

theorem hs_find_upd_walk_advances_with_next_witness:
  "cur_pos (snd (hs_find_upd_walk demo_reading)) = Some 2
   \<and> fst (hs demo_reading ! 0) < fst (hs demo_reading ! 2)
   \<and> bufs (snd (hs_find_upd_walk demo_reading)) 1 = Some ''xbc!''"
proof -
  have "fst (hs_find_upd_walk demo_reading) = 0" by code_simp
  then have run: "hs_find_upd_walk demo_reading = (0, snd (hs_find_upd_walk demo_reading))"
    by (metis prod.collapse)
  have cp: "cur_pos (snd (hs_find_upd_walk demo_reading)) = Some 2" by code_simp
  have nf: "WT_NOTFOUND \<notin> set (faults demo_reading)" by code_simp
  have srt: "sorted_wrt (<) (map fst (hs demo_reading))" by code_simp
  have rd: "reading demo_reading 0 1" by code_simp
  have m: "is_modify (hs demo_reading ! 0)" by code_simp
  have v: "rec_value (snd (hs demo_reading ! 2)) = ''xbc!''" by code_simp
  from hs_find_upd_walk_advances_with_next[OF run nf srt rd m]
  show ?thesis unfolding cp using v by simp
qed

text \<open>
  C7. The positioning of \<^verbatim>\<open>__wt_hs_cursor_position\<close> makes every cursor call under the
  read-uncommitted isolation level and leaves the session's level as it found it. Every
  cursor call between the setting of \<^verbatim>\<open>WT_CURSTD_HS_READ_COMMITTED\<close> and the end of the
  squash (lines 284-320) carries the flag, and over a whole call of the resolver, on every
  path, each \<^verbatim>\<open>next\<close> is made with the flag set; the resolver too leaves the isolation
  level unchanged.
\<close>

theorem hs_reads_run_relaxed:
  "isolation (snd (wt_hs_cursor_position X e btree_id key timestamp usk)) = isolation e
   \<and> logs (\<lambda>c. fst (snd c) = WT_ISO_READ_UNCOMMITTED) e
        (snd (wt_hs_cursor_position X e btree_id key timestamp usk))
   \<and> logs (\<lambda>c. snd (snd c)) s (snd (hs_find_upd_build X s))
   \<and> isolation (snd (wt_hs_find_upd X s ts btree_id k recno)) = isolation s
   \<and> logs (\<lambda>c. fst c = OpNext \<longrightarrow> snd (snd c)) s
        (snd (wt_hs_find_upd X s ts btree_id k recno))"
proof (intro conjI)
  let ?e0 = "e\<lparr>isolation := WT_ISO_READ_UNCOMMITTED\<rparr>"
  obtain r e1 where p: "hs_cursor_position_int X ?e0 btree_id key timestamp usk = (r, e1)"
    by (cases "hs_cursor_position_int X ?e0 btree_id key timestamp usk")
  have e': "snd (wt_hs_cursor_position X e btree_id key timestamp usk)
      = e1\<lparr>isolation := isolation e\<rparr>"
    by (simp add: wt_hs_cursor_position_def p)
  show "isolation (snd (wt_hs_cursor_position X e btree_id key timestamp usk)) = isolation e"
    unfolding e' by simp
  have "logs (\<lambda>c. fst (snd c) = WT_ISO_READ_UNCOMMITTED) ?e0 e1"
    using position_int_steps[OF p] by (rule steps_logs) simp
  then show "logs (\<lambda>c. fst (snd c) = WT_ISO_READ_UNCOMMITTED) e
        (snd (wt_hs_cursor_position X e btree_id key timestamp usk))"
    unfolding e' by (simp add: logs_def)
next
  obtain r s1 where b: "hs_find_upd_build X s = (r, s1)" by (cases "hs_find_upd_build X s")
  show "logs (\<lambda>c. snd (snd c)) s (snd (hs_find_upd_build X s))"
    unfolding b snd_conv by (rule logs_mono[OF conjunct2[OF build_logs[OF b]]]) simp
next
  obtain r s' where f: "wt_hs_find_upd X s ts btree_id k recno = (r, s')"
    by (cases "wt_hs_find_upd X s ts btree_id k recno")
  have "isolation s' = isolation s \<and> logs (\<lambda>c. fst c = OpNext \<longrightarrow> snd (snd c)) s s'"
    by (rule find_upd_logs[where E = "\<lambda>c. fst c = OpNext \<longrightarrow> snd (snd c)", OF f]) simp_all
  then show "isolation (snd (wt_hs_find_upd X s ts btree_id k recno)) = isolation s"
    and "logs (\<lambda>c. fst c = OpNext \<longrightarrow> snd (snd c)) s
        (snd (wt_hs_find_upd X s ts btree_id k recno))"
    unfolding f by simp_all
qed

theorem hs_reads_run_relaxed_witness:
  "isolation (snd (wt_hs_cursor_position demo (demo_state demo_store [] ''abc'' False)
        1 ''K'' 25 None)) = WT_ISO_SNAPSHOT
   \<and> calls (snd (wt_hs_cursor_position demo (demo_state demo_store [] ''abc'' False)
        1 ''K'' 25 None))
       = [(OpSearchNear, WT_ISO_READ_UNCOMMITTED, False), (OpPrev, WT_ISO_READ_UNCOMMITTED, False)]
   \<and> logs (\<lambda>c. fst (snd c) = WT_ISO_READ_UNCOMMITTED) (demo_state demo_store [] ''abc'' False)
        (snd (wt_hs_cursor_position demo (demo_state demo_store [] ''abc'' False) 1 ''K'' 25 None))
   \<and> logs (\<lambda>c. snd (snd c)) demo_reading (snd (hs_find_upd_build demo demo_reading))
   \<and> calls (snd (hs_find_upd_build demo demo_reading))
       = [(OpNext, WT_ISO_SNAPSHOT, True), (OpGetValue, WT_ISO_SNAPSHOT, True),
          (OpNext, WT_ISO_SNAPSHOT, True), (OpGetValue, WT_ISO_SNAPSHOT, True)]
   \<and> logs (\<lambda>c. fst c = OpNext \<longrightarrow> snd (snd c)) (demo_state demo_store_rev [] ''zzz'' False)
        (snd (wt_hs_find_upd demo (demo_state demo_store_rev [] ''zzz'' False) 15 1 (Some ''K'') 0))
   \<and> calls (snd (wt_hs_find_upd demo (demo_state demo_store_rev [] ''zzz'' False) 15 1 (Some ''K'') 0))
       = [(OpSearchNear, WT_ISO_READ_UNCOMMITTED, False), (OpPrev, WT_ISO_READ_UNCOMMITTED, False),
          (OpGetValue, WT_ISO_SNAPSHOT, False),
          (OpNext, WT_ISO_SNAPSHOT, True), (OpGetValue, WT_ISO_SNAPSHOT, True),
          (OpNext, WT_ISO_SNAPSHOT, True), (OpGetValue, WT_ISO_SNAPSHOT, True)]"
proof -
  have i: "isolation (demo_state demo_store [] ''abc'' False) = WT_ISO_SNAPSHOT"
    by (simp add: demo_state_def)
  have c1: "calls (snd (wt_hs_cursor_position demo (demo_state demo_store [] ''abc'' False)
        1 ''K'' 25 None))
       = [(OpSearchNear, WT_ISO_READ_UNCOMMITTED, False), (OpPrev, WT_ISO_READ_UNCOMMITTED, False)]"
    by code_simp
  have c2: "calls (snd (hs_find_upd_build demo demo_reading))
       = [(OpNext, WT_ISO_SNAPSHOT, True), (OpGetValue, WT_ISO_SNAPSHOT, True),
          (OpNext, WT_ISO_SNAPSHOT, True), (OpGetValue, WT_ISO_SNAPSHOT, True)]"
    by code_simp
  have c3: "calls (snd (wt_hs_find_upd demo (demo_state demo_store_rev [] ''zzz'' False) 15 1 (Some ''K'') 0))
       = [(OpSearchNear, WT_ISO_READ_UNCOMMITTED, False), (OpPrev, WT_ISO_READ_UNCOMMITTED, False),
          (OpGetValue, WT_ISO_SNAPSHOT, False),
          (OpNext, WT_ISO_SNAPSHOT, True), (OpGetValue, WT_ISO_SNAPSHOT, True),
          (OpNext, WT_ISO_SNAPSHOT, True), (OpGetValue, WT_ISO_SNAPSHOT, True)]"
    by code_simp
  note a = hs_reads_run_relaxed[where X = demo and e = "demo_state demo_store [] ''abc'' False"
      and btree_id = 1 and key = "''K''" and timestamp = 25 and usk = None and s = demo_reading]
  note b = hs_reads_run_relaxed[where X = demo and e = "demo_state demo_store [] ''abc'' False"
      and btree_id = 1 and key = "''K''" and timestamp = 25 and usk = None
      and s = "demo_state demo_store_rev [] ''zzz'' False" and ts = 15 and k = "Some ''K''"
      and recno = 0]
  from a b show ?thesis unfolding i using c1 c2 c3 by simp
qed

text \<open>
  C6. When the caller sets \<^verbatim>\<open>skip_buf\<close>, on every path the resolver leaves the
  caller's value buffer as it was and makes no \<^verbatim>\<open>next\<close> call: the delta chain is not
  walked and nothing is copied. When no collaborator fails and the newest record at or
  before the search key is a record \<open>t\<close> of the searched table id and record key, the call
  succeeds and reports \<open>t\<close>'s own update type (a modify stays a modify) and durable
  timestamp, and no update structure is left allocated.
\<close>

theorem hs_find_upd_skip_payload:
  assumes skip: "uv_skip_buf s"
    and run: "wt_hs_find_upd X s ts btree_id (Some k) recno = (r, s')"
  shows "uv_buf s' = uv_buf s \<and> logs (\<lambda>c. fst c \<noteq> OpNext) s s'
     \<and> (faults s = [] \<and> sorted_wrt (<) (map fst (hs s))
          \<and> hs s = pre @ hs_entry X btree_id k t # rest
          \<and> fst (hs_entry X btree_id k t)
               \<le> hs_pack_key X btree_id k (if ts = WT_TS_NONE then WT_TS_MAX else ts) UINT64_MAX
          \<and> (\<forall>e\<in>set rest.
                hs_pack_key X btree_id k (if ts = WT_TS_NONE then WT_TS_MAX else ts) UINT64_MAX
                  < fst e)
        \<longrightarrow> r = 0 \<and> uv_type s' = ucast (rec_upd_type_full (snd (snd t)))
            \<and> uv_durable_start_ts s' = rec_durable_ts (snd (snd t))
            \<and> uv_start_txn s' = WT_TXN_NONE \<and> upd_live s' = upd_live s)"
proof (intro conjI impI)
  show "uv_buf s' = uv_buf s" using run skip by (rule find_upd_skip_frame)
  show "logs (\<lambda>c. fst c \<noteq> OpNext) s s'"
    using conjunct2[OF find_upd_logs[where E = "\<lambda>c. fst c \<noteq> OpNext", OF run]] skip by simp
next
  let ?K = "hs_pack_key X btree_id k (if ts = WT_TS_NONE then WT_TS_MAX else ts) UINT64_MAX"
  let ?t = "hs_entry X btree_id k t"
  assume a: "faults s = [] \<and> sorted_wrt (<) (map fst (hs s))
          \<and> hs s = pre @ ?t # rest \<and> fst ?t \<le> ?K \<and> (\<forall>e\<in>set rest. ?K < fst e)"
  then have nf: "faults s = []" and srt: "sorted_wrt (<) (map fst (hs s))"
    and shape: "hs s = pre @ ?t # rest" and le: "fst ?t \<le> ?K"
    and gt: "\<forall>e\<in>set rest. ?K < fst e"
    by blast+
  have st: "snd ?t = snd (snd t)" by (simp add: hs_entry_def)
  from find_upd_skip_buf_result[OF srt nf shape le gt skip, of recno] run
  show "r = 0" "uv_type s' = ucast (rec_upd_type_full (snd (snd t)))"
    "uv_durable_start_ts s' = rec_durable_ts (snd (snd t))"
    "uv_start_txn s' = WT_TXN_NONE" "upd_live s' = upd_live s"
    unfolding st by auto
qed

theorem hs_find_upd_skip_payload_witness:
  "fst (wt_hs_find_upd demo (demo_state demo_store [] ''abc'' True) 25 1 (Some ''K'') 0) = 0
   \<and> uv_buf (snd (wt_hs_find_upd demo (demo_state demo_store [] ''abc'' True) 25 1 (Some ''K'') 0))
       = []
   \<and> uv_type (snd (wt_hs_find_upd demo (demo_state demo_store [] ''abc'' True) 25 1 (Some ''K'') 0))
       = WT_UPDATE_MODIFY
   \<and> uv_durable_start_ts
        (snd (wt_hs_find_upd demo (demo_state demo_store [] ''abc'' True) 25 1 (Some ''K'') 0)) = 20
   \<and> calls (snd (wt_hs_find_upd demo (demo_state demo_store [] ''abc'' True) 25 1 (Some ''K'') 0))
       = [(OpSearchNear, WT_ISO_READ_UNCOMMITTED, False), (OpPrev, WT_ISO_READ_UNCOMMITTED, False),
          (OpGetValue, WT_ISO_SNAPSHOT, False)]"
proof -
  let ?s = "demo_state demo_store [] ''abc'' True"
  let ?p = "(demo_pack_key 1 ''K'' 10 0, demo_rec 10 WT_UPDATE_STANDARD ''abc'')"
  let ?t = "(20, 0, demo_rec 20 WT_UPDATE_MODIFY [CHR 0x00, CHR 0x01, CHR ''x''])"
  let ?m = "(demo_pack_key 1 ''K'' 30 0, demo_rec 30 WT_UPDATE_MODIFY [CHR 0x03, CHR 0x00, CHR ''!''])"
  let ?r = "wt_hs_find_upd demo ?s 25 1 (Some ''K'') 0"
  have h: "hs ?s = demo_store" "faults ?s = []" "uv_skip_buf ?s" "uv_buf ?s = []"
    by (simp_all add: demo_state_def)
  have run: "?r = (fst ?r, snd ?r)" by simp
  have srt: "sorted_wrt (<) (map fst (hs ?s))" unfolding h by code_simp
  have shape: "hs ?s = [?p] @ hs_entry demo 1 ''K'' ?t # [?m]"
    unfolding h by (simp add: demo_store_def hs_entry_def demo_def)
  have le: "fst (hs_entry demo 1 ''K'' ?t)
      \<le> hs_pack_key demo 1 ''K'' (if 25 = WT_TS_NONE then WT_TS_MAX else 25) UINT64_MAX"
    by code_simp
  have gt: "\<forall>e\<in>set [?m].
      hs_pack_key demo 1 ''K'' (if 25 = WT_TS_NONE then WT_TS_MAX else 25) UINT64_MAX < fst e"
    by code_simp
  have ty: "ucast (rec_upd_type_full (snd (snd ?t))) = WT_UPDATE_MODIFY"
    "rec_durable_ts (snd (snd ?t)) = 20"
    by code_simp+
  have c: "calls (snd ?r)
       = [(OpSearchNear, WT_ISO_READ_UNCOMMITTED, False), (OpPrev, WT_ISO_READ_UNCOMMITTED, False),
          (OpGetValue, WT_ISO_SNAPSHOT, False)]"
    by code_simp
  from hs_find_upd_skip_payload[OF h(3) run, of "[?p]" ?t "[?m]"] h(2) srt shape le gt
  show ?thesis unfolding h(4) ty using c by simp
qed




end
